theory Spec2Isabelle
  imports Main "HOL-Library.Multiset"
begin

section \<open>Data model (Graph.cpp, lines 15-25)\<close>

text \<open>
  The library is a template over the weight type \<open>T\<close>; the usage notes of the source
  instantiate it with \<open>int\<close> (\<open>Graph<int> g(N)\<close>, \<open>Edges<int> edges\<close>), and so does this
  development: a weight is a 32-bit signed integer, modelled as an \<open>int\<close> between \<open>T_min\<close>
  and \<open>T_max\<close>. Signed overflow is undefined behaviour in C++; every addition of the source is
  modelled by \<open>add_T\<close>, which returns the error \<open>Overflow\<close> when the sum leaves the range.
  Indexing a vector out of range is undefined behaviour as well and is modelled by the error
  \<open>OutOfRange\<close>. Vertex ids are indices into vectors and are modelled as \<open>nat\<close>: a negative
  id is out of range exactly like one beyond the size.
\<close>

datatype error = OutOfRange | Overflow

definition T_max :: int where
  "T_max = 2147483647"

definition T_min :: int where
  "T_min = - 2147483648"

text \<open>The constant \<open>INF\<close> of the source, \<open>numeric_limits<T>::max() / 10\<close> (the name \<open>INF\<close> is taken in HOL).\<close>

definition INFTY :: int where
  "INFTY = T_max div 10"

definition add_T :: "int \<Rightarrow> int \<Rightarrow> error + int" where
  "add_T a b = (if T_min \<le> a + b \<and> a + b \<le> T_max then Inr (a + b) else Inl Overflow)"

datatype edge = Edge (efrom: nat) (to: nat) (weight: int)

type_synonym edges = "edge list"
type_synonym graph = "edge list list"
type_synonym matrix = "int list list"

definition add_edge :: "graph \<Rightarrow> nat \<Rightarrow> nat \<Rightarrow> int \<Rightarrow> error + graph" where
  "add_edge g a b w =
     (if length g \<le> a then Inl OutOfRange
      else let g1 = g[a := g ! a @ [Edge a b w]]
           in if length g1 \<le> b then Inl OutOfRange
              else Inr (g1[b := g1 ! b @ [Edge b a w]]))"

definition add_arc :: "graph \<Rightarrow> nat \<Rightarrow> nat \<Rightarrow> int \<Rightarrow> error + graph" where
  "add_arc g a b w =
     (if length g \<le> a then Inl OutOfRange else Inr (g[a := g ! a @ [Edge a b w]]))"

definition add_to_edges :: "edges \<Rightarrow> nat \<Rightarrow> nat \<Rightarrow> int \<Rightarrow> edges" where
  "add_to_edges e a b w = e @ [Edge a b w]"

text \<open>A \<open>for\<close> loop without \<open>break\<close>: the body runs on every element in turn and the first
  error stops the loop.\<close>

fun for_each :: "'a list \<Rightarrow> ('a \<Rightarrow> 's \<Rightarrow> error + 's) \<Rightarrow> 's \<Rightarrow> error + 's" where
  "for_each [] body s = Inr s"
| "for_each (x # xs) body s =
     (case body x s of Inl err \<Rightarrow> Inl err | Inr s' \<Rightarrow> for_each xs body s')"

section \<open>Dijkstra (Graph.cpp, lines 36-55)\<close>

text \<open>The queue is a \<open>priority_queue\<close> of pairs \<open>(weight, vertex)\<close> under \<open>greater\<close>: \<open>top\<close>
  is a least pair in the lexicographic order of \<open>std::pair\<close>, \<open>pop\<close> removes it. Equal pairs
  cannot be told apart, so a list read as a multiset models it.\<close>

type_synonym queue = "(int \<times> nat) list"

definition pair_less :: "int \<times> nat \<Rightarrow> int \<times> nat \<Rightarrow> bool" where
  "pair_less p q \<longleftrightarrow> fst p < fst q \<or> (\<not> fst q < fst p \<and> snd p < snd q)"

fun que_top :: "int \<times> nat \<Rightarrow> queue \<Rightarrow> int \<times> nat" where
  "que_top p [] = p"
| "que_top p (q # que) = que_top (if pair_less q p then q else p) que"

text \<open>The \<open>for\<close> loop over \<open>g[idx]\<close> (lines 47-52).\<close>

fun Dijkstra_edges :: "int \<Rightarrow> edge list \<Rightarrow> int list \<times> queue \<Rightarrow> error + int list \<times> queue" where
  "Dijkstra_edges w [] (dist, que) = Inr (dist, que)"
| "Dijkstra_edges w (e # es) (dist, que) =
     (case add_T w (weight e) of
        Inl err \<Rightarrow> Inl err
      | Inr next_weight \<Rightarrow>
          if length dist \<le> to e then Inl OutOfRange
          else if dist ! to e \<le> next_weight then Dijkstra_edges w es (dist, que)
          else Dijkstra_edges w es (dist[to e := next_weight], (next_weight, to e) # que))"

text \<open>The \<open>while\<close> loop (lines 43-53). It ends on every input: a push goes with a strict
  decrease of an entry of \<open>dist\<close>, which \<open>add_T\<close> keeps above \<open>T_min\<close>.\<close>

function Dijkstra_loop :: "graph \<Rightarrow> int list \<Rightarrow> queue \<Rightarrow> error + int list" where
  "Dijkstra_loop g dist que =
     (case que of
        [] \<Rightarrow> Inr dist
      | p # ps \<Rightarrow>
          if length dist \<le> snd (que_top p ps) then Inl OutOfRange
          else if dist ! snd (que_top p ps) < fst (que_top p ps)
            then Dijkstra_loop g dist (remove1 (que_top p ps) que)
          else if length g \<le> snd (que_top p ps) then Inl OutOfRange
          else (case Dijkstra_edges (fst (que_top p ps)) (g ! snd (que_top p ps))
                       (dist, remove1 (que_top p ps) que) of
                  Inl err \<Rightarrow> Inl err
                | Inr (dist', que') \<Rightarrow> Dijkstra_loop g dist' que'))"
  by pat_completeness auto

termination Dijkstra_loop
proof (relation "inv_image (less_than <*lex*> less_than)
         (\<lambda>(g, dist, que). (sum_list (map (\<lambda>d. nat (d - T_min)) dist), length que))")
  show "wf (inv_image (less_than <*lex*> less_than)
         (\<lambda>(g, dist, que). (sum_list (map (\<lambda>d. nat (d - T_min)) dist), length que)))"
    by (intro wf_inv_image wf_lex_prod wf_less_than)
next
  fix g :: graph and dist :: "int list" and que :: queue and p ps
  assume "que = p # ps"
  then have "que_top p ps \<in> set que"
    by (induction ps arbitrary: p que) (auto split: if_splits)
  then have "length (remove1 (que_top p ps) que) < length que"
    by (simp add: length_remove1) (cases que; simp)
  then show "((g, dist, remove1 (que_top p ps) que), (g, dist, que))
       \<in> inv_image (less_than <*lex*> less_than)
          (\<lambda>(g, dist, que). (sum_list (map (\<lambda>d. nat (d - T_min)) dist), length que))"
    by simp
next
  fix g :: graph and dist :: "int list" and que :: queue and p ps x2 dist' que'
  assume que: "que = p # ps"
    and run: "Dijkstra_edges (fst (que_top p ps)) (g ! snd (que_top p ps))
                (dist, remove1 (que_top p ps) que) = Inr x2"
    and x2: "(dist', que') = x2"
  let ?f = "\<lambda>d. nat (d - T_min)"
  have step: "sum_list (map ?f d') < sum_list (map ?f d) \<or> (d' = d \<and> q' = q)"
    if "Dijkstra_edges w es (d, q) = Inr (d', q')" for w es d q d' q'
    using that
  proof (induction es arbitrary: d q)
    case Nil
    then show ?case by simp
  next
    case (Cons e es)
    from Cons.prems obtain nw where nw: "add_T w (weight e) = Inr nw"
      by (auto split: sum.splits)
    from Cons.prems nw have rng: "to e < length d"
      by (auto split: if_splits)
    show ?case
    proof (cases "d ! to e \<le> nw")
      case True
      with Cons.prems nw rng have "Dijkstra_edges w es (d, q) = Inr (d', q')" by simp
      then show ?thesis by (rule Cons.IH)
    next
      case False
      with Cons.prems nw rng
      have "Dijkstra_edges w es (d[to e := nw], (nw, to e) # q) = Inr (d', q')" by simp
      from Cons.IH[OF this]
      have le: "sum_list (map ?f d') \<le> sum_list (map ?f (d[to e := nw]))" by auto
      from nw have "T_min \<le> nw" by (auto simp: add_T_def split: if_splits)
      with False have lt: "?f nw < ?f (d ! to e)" by simp
      have "map ?f (d[to e := nw]) = (map ?f d)[to e := ?f nw]" by (simp add: map_update)
      moreover have "sum_list ((map ?f d)[to e := ?f nw]) = sum_list (map ?f d) + ?f nw - ?f (d ! to e)"
        using rng by (simp add: sum_list_update)
      ultimately have eq: "sum_list (map ?f (d[to e := nw])) = sum_list (map ?f d) + ?f nw - ?f (d ! to e)"
        by (simp only:)
      have bound: "?f (d ! to e) \<le> sum_list (map ?f d)"
      proof -
        from rng have "d ! to e \<in> set d" by simp
        then have "?f (d ! to e) \<in> set (map ?f d)" by simp
        then show ?thesis by (rule member_le_sum_list) simp
      qed
      from eq bound lt have "sum_list (map ?f (d[to e := nw])) < sum_list (map ?f d)"
        by linarith
      with le show ?thesis by simp
    qed
  qed
  from que have "que_top p ps \<in> set que"
    by (induction ps arbitrary: p que) (auto split: if_splits)
  then have "length (remove1 (que_top p ps) que) < length que"
    by (simp add: length_remove1) (cases que; simp)
  with step[of "fst (que_top p ps)" "g ! snd (que_top p ps)" dist
      "remove1 (que_top p ps) que" dist' que'] run x2
  show "((g, dist', que'), (g, dist, que))
       \<in> inv_image (less_than <*lex*> less_than)
          (\<lambda>(g, dist, que). (sum_list (map (\<lambda>d. nat (d - T_min)) dist), length que))"
    by auto
qed

definition Dijkstra :: "graph \<Rightarrow> nat \<Rightarrow> error + int list" where
  "Dijkstra g s =
     (let dist = replicate (length g) INFTY
      in if length dist \<le> s then Inl OutOfRange
         else Dijkstra_loop g (dist[s := 0]) [((dist[s := 0]) ! s, s)])"

section \<open>Bellman-Ford (Graph.cpp, lines 69-84)\<close>




section \<open>Warshall-Floyd (Graph.cpp, lines 99-134)\<close>

text \<open>The body of the innermost loop, the same text at lines 113-115 and 128-130:
  \<open>if (dist[i][k] != INF && dist[k][j] != INF) dist[i][j] = min(dist[i][j], dist[i][k] + dist[k][j])\<close>.\<close>

definition relax :: "nat \<Rightarrow> nat \<Rightarrow> nat \<Rightarrow> matrix \<Rightarrow> error + matrix" where
  "relax k i j mat =
     (if length mat \<le> i \<or> length (mat ! i) \<le> k then Inl OutOfRange
      else if mat ! i ! k = INFTY then Inr mat
      else if length mat \<le> k \<or> length (mat ! k) \<le> j then Inl OutOfRange
      else if mat ! k ! j = INFTY then Inr mat
      else if length (mat ! i) \<le> j then Inl OutOfRange
      else (case add_T (mat ! i ! k) (mat ! k ! j) of
              Inl err \<Rightarrow> Inl err
            | Inr s \<Rightarrow> Inr (mat[i := (mat ! i)[j := min (mat ! i ! j) s]])))"

definition relax_all :: "nat \<Rightarrow> nat \<Rightarrow> matrix \<Rightarrow> error + matrix" where
  "relax_all vertex k mat =
     for_each [0..<vertex] (\<lambda>i. for_each [0..<vertex] (\<lambda>j. relax k i j)) mat"

definition set_diag :: "nat \<Rightarrow> matrix \<Rightarrow> error + matrix" where
  "set_diag i dist =
     (if length dist \<le> i \<or> length (dist ! i) \<le> i then Inl OutOfRange
      else Inr (dist[i := (dist ! i)[i := 0]]))"

definition set_edge :: "edge \<Rightarrow> matrix \<Rightarrow> error + matrix" where
  "set_edge e dist =
     (if length dist \<le> efrom e \<or> length (dist ! efrom e) \<le> to e then Inl OutOfRange
      else Inr (dist[efrom e := (dist ! efrom e)[to e := min (dist ! efrom e ! to e) (weight e)]]))"

definition WarshallFloyd_init :: "graph \<Rightarrow> error + matrix" where
  "WarshallFloyd_init g =
     (let vertex = length g;
          dist = replicate vertex (replicate vertex INFTY)
      in case for_each [0..<vertex] set_diag dist of
           Inl err \<Rightarrow> Inl err
         | Inr dist1 \<Rightarrow> for_each [0..<vertex] (\<lambda>i. for_each (g ! i) set_edge) dist1)"

definition WarshallFloyd :: "graph \<Rightarrow> error + matrix" where
  "WarshallFloyd g =
     (case WarshallFloyd_init g of
        Inl err \<Rightarrow> Inl err
      | Inr dist \<Rightarrow> for_each [0..<length g] (relax_all (length g)) dist)"


section \<open>Kruskal (Graph.cpp, lines 148-158)\<close>








section \<open>Topological sort (Graph.cpp, lines 169-185)\<close>

text \<open>The closure \<open>visit\<close> calls itself; the model bounds the depth of the calls by a
  counter and returns \<open>None\<close> when the counter runs out. The state is the pair of the
  vectors \<open>color\<close> and \<open>order\<close>, which the closure holds by reference; the result is the
  closure's \<open>bool\<close> with the state it leaves.\<close>

type_synonym visit_state = "nat list \<times> nat list"

fun visit :: "nat \<Rightarrow> graph \<Rightarrow> nat \<Rightarrow> visit_state \<Rightarrow> (error + bool \<times> visit_state) option"
  and visit_edges :: "nat \<Rightarrow> graph \<Rightarrow> edge list \<Rightarrow> visit_state \<Rightarrow> (error + bool \<times> visit_state) option"
  where
  "visit 0 g v (color, order) = None"
| "visit (Suc n) g v (color, order) =
     (if length color \<le> v \<or> length g \<le> v then Some (Inl OutOfRange)
      else (case visit_edges n g (g ! v) (color[v := 1], order) of
              None \<Rightarrow> None
            | Some (Inl err) \<Rightarrow> Some (Inl err)
            | Some (Inr (False, st)) \<Rightarrow> Some (Inr (False, st))
            | Some (Inr (True, color', order')) \<Rightarrow>
                Some (Inr (True, color'[v := 2], order' @ [v]))))"
| "visit_edges n g [] st = Some (Inr (True, st))"
| "visit_edges n g (e # es) (color, order) =
     (if length color \<le> to e then Some (Inl OutOfRange)
      else if color ! to e = 2 then visit_edges n g es (color, order)
      else if color ! to e = 1 then Some (Inr (False, color, order))
      else (case visit n g (to e) (color, order) of
              None \<Rightarrow> None
            | Some (Inl err) \<Rightarrow> Some (Inl err)
            | Some (Inr (False, st)) \<Rightarrow> Some (Inr (False, st))
            | Some (Inr (True, st)) \<Rightarrow> visit_edges n g es st))"

text \<open>The loop over the roots (line 182).\<close>

fun visit_roots :: "nat \<Rightarrow> graph \<Rightarrow> nat list \<Rightarrow> visit_state \<Rightarrow> (error + bool \<times> visit_state) option" where
  "visit_roots n g [] st = Some (Inr (True, st))"
| "visit_roots n g (i # is) (color, order) =
     (if length color \<le> i then Some (Inl OutOfRange)
      else if color ! i \<noteq> 0 then visit_roots n g is (color, order)
      else (case visit n g i (color, order) of
              None \<Rightarrow> None
            | Some (Inl err) \<Rightarrow> Some (Inl err)
            | Some (Inr (False, st)) \<Rightarrow> Some (Inr (False, st))
            | Some (Inr (True, st)) \<Rightarrow> visit_roots n g is st))"

text \<open>\<open>TopologicalSort fuel g order\<close>: the result is the returned \<open>bool\<close> and the vector
  \<open>order\<close> as the caller finds it afterwards.\<close>

definition TopologicalSort :: "nat \<Rightarrow> graph \<Rightarrow> nat list \<Rightarrow> (error + bool \<times> nat list) option" where
  "TopologicalSort fuel g order =
     (case visit_roots fuel g [0..<length g] (replicate (length g) 0, order) of
        None \<Rightarrow> None
      | Some (Inl err) \<Rightarrow> Some (Inl err)
      | Some (Inr (False, color, order')) \<Rightarrow> Some (Inr (False, order'))
      | Some (Inr (True, color, order')) \<Rightarrow> Some (Inr (True, rev order')))"

section \<open>Bipartite check (Graph.cpp, lines 196-213)\<close>

text \<open>The closure \<open>dfs\<close> holds \<open>color\<close> and \<open>ret\<close> by reference; the depth of its calls is
  bounded by a counter as for \<open>visit\<close>. The statements after \<open>return ret\<close> (lines 210-212) are
  never run.\<close>

type_synonym dfs_state = "int list \<times> bool"

fun dfs :: "nat \<Rightarrow> graph \<Rightarrow> nat \<Rightarrow> int \<Rightarrow> dfs_state \<Rightarrow> (error + dfs_state) option"
  and dfs_edges :: "nat \<Rightarrow> graph \<Rightarrow> int \<Rightarrow> edge list \<Rightarrow> dfs_state \<Rightarrow> (error + dfs_state) option"
  where
  "dfs 0 g i clr (color, ret) = None"
| "dfs (Suc n) g i clr (color, ret) =
     (if length color \<le> i then Some (Inl OutOfRange)
      else if color ! i \<noteq> 0 then Some (Inr (color, ret))
      else if length g \<le> i then Some (Inl OutOfRange)
      else dfs_edges n g clr (g ! i) (color[i := clr], ret))"
| "dfs_edges n g clr [] st = Some (Inr st)"
| "dfs_edges n g clr (e # es) (color, ret) =
     (if length color \<le> to e then Some (Inl OutOfRange)
      else if color ! to e = 0 then
        (case dfs n g (to e) (- clr) (color, ret) of
           None \<Rightarrow> None
         | Some (Inl err) \<Rightarrow> Some (Inl err)
         | Some (Inr st) \<Rightarrow> dfs_edges n g clr es st)
      else if color ! to e = clr then dfs_edges n g clr es (color, False)
      else dfs_edges n g clr es (color, ret))"

definition isBipartiteGraph :: "nat \<Rightarrow> graph \<Rightarrow> (error + bool) option" where
  "isBipartiteGraph fuel g =
     (case dfs fuel g 0 1 (replicate (length g) 0, True) of
        None \<Rightarrow> None
      | Some (Inl err) \<Rightarrow> Some (Inl err)
      | Some (Inr (color, ret)) \<Rightarrow> Some (Inr ret))"

section \<open>The calls on the structures of the caller\<close>

text \<open>\<open>Dijkstra\<close>, \<open>BellmanFord\<close> and \<open>WarshallFloyd\<close> take the graph or the edge collection by
  reference (\<open>Graph<T> &g\<close>, \<open>Edges<T> &edges\<close>), \<open>TopologicalSort\<close> and \<open>isBipartiteGraph\<close> by
  reference to \<open>const\<close>. To say what a call leaves behind the reference, the bodies are
  translated a second time, on a state that holds the structure of the caller beside the local
  variables: every statement takes the whole state and returns it with the components it
  assigns to changed. An element \<open>e\<close> bound by \<open>auto &e\<close> in a loop over the structure is the
  element at the position of the loop in the state of that moment; the bounds of the loop are
  taken when it starts. A call that ends normally returns the structure with the result.
  (\<open>Kruskal\<close> and \<open>add_edge_to_matrix\<close> above already return what they leave of the collection
  and of the matrix.)\<close>

subsection \<open>Dijkstra\<close>





subsection \<open>Bellman-Ford\<close>




subsection \<open>Warshall-Floyd\<close>







subsection \<open>Topological sort\<close>





subsection \<open>Bipartite check\<close>




section \<open>Predicates of the statements\<close>


section \<open>Predicates for the bipartite check\<close>

text \<open>Every edge of the graph ends at a vertex of the graph (the data model asks this of the
  caller).\<close>

definition wf_graph :: "graph \<Rightarrow> bool" where
  "wf_graph g \<longleftrightarrow> (\<forall>es \<in> set g. \<forall>e \<in> set es. to e < length g)"

text \<open>\<open>reachable g u v\<close>: a walk along the adjacency lists leads from \<open>u\<close> to \<open>v\<close>.\<close>

inductive reachable :: "graph \<Rightarrow> nat \<Rightarrow> nat \<Rightarrow> bool" for g :: graph and u :: nat where
  reachable_refl: "reachable g u u"
| reachable_step: "reachable g u v \<Longrightarrow> v < length g \<Longrightarrow> e \<in> set (g ! v) \<Longrightarrow> reachable g u (to e)"

text \<open>A proper 2-colouring: the two ends of every entry of every adjacency list differ.\<close>

definition two_colourable :: "graph \<Rightarrow> bool" where
  "two_colourable g \<longleftrightarrow> (\<exists>c :: nat \<Rightarrow> bool. \<forall>u < length g. \<forall>e \<in> set (g ! u). c (to e) \<noteq> c u)"

text \<open>The vertices a traversal has not coloured yet.\<close>

definition white :: "'a :: zero list \<Rightarrow> nat set" where
  "white color = {v. v < length color \<and> color ! v = 0}"

text \<open>What a call of \<open>dfs\<close> (or a run of its loop) leaves: colours once set stay, \<open>ret\<close> only
  falls, and every vertex coloured by the call has one of the two colours, all its neighbours
  coloured and, while \<open>ret\<close> stands, coloured the other way.\<close>

definition dfs_post :: "graph \<Rightarrow> int \<Rightarrow> dfs_state \<Rightarrow> dfs_state \<Rightarrow> bool" where
  "dfs_post g clr st st' \<longleftrightarrow>
     length (fst st') = length (fst st) \<and>
     (\<forall>v < length (fst st). fst st ! v \<noteq> 0 \<longrightarrow> fst st' ! v = fst st ! v) \<and>
     (snd st' \<longrightarrow> snd st) \<and>
     (\<forall>v < length (fst st). fst st ! v = 0 \<and> fst st' ! v \<noteq> 0 \<longrightarrow>
        (fst st' ! v = clr \<or> fst st' ! v = - clr) \<and>
        (\<forall>e \<in> set (g ! v). fst st' ! to e \<noteq> 0 \<and> (snd st' \<longrightarrow> fst st' ! to e = - (fst st' ! v))))"

text \<open>What a call of \<open>dfs\<close> with the counter \<open>n\<close> starts from.\<close>

definition dfs_pre :: "graph \<Rightarrow> nat \<Rightarrow> int list \<Rightarrow> bool" where
  "dfs_pre g n color \<longleftrightarrow>
     wf_graph g \<and> length color = length g \<and> card (white color) \<le> n \<and>
     (\<forall>v < length color. color ! v = 0 \<or> color ! v = 1 \<or> color ! v = - 1)"

text \<open>The part of the graph that a traversal from \<open>s\<close> can see has a proper 2-colouring: the
  two ends of every entry of the adjacency list of every vertex reachable from \<open>s\<close> differ.\<close>

definition two_colourable_from :: "graph \<Rightarrow> nat \<Rightarrow> bool" where
  "two_colourable_from g s \<longleftrightarrow>
     (\<exists>c :: nat \<Rightarrow> bool. \<forall>u < length g. reachable g s u \<longrightarrow> (\<forall>e \<in> set (g ! u). c (to e) \<noteq> c u))"

text \<open>A colouring by the numbers \<open>1\<close> and \<open>-1\<close>, as the check writes them, that is proper on
  the vertices reachable from \<open>s\<close>.\<close>

definition proper :: "graph \<Rightarrow> nat \<Rightarrow> (nat \<Rightarrow> int) \<Rightarrow> bool" where
  "proper g s c \<longleftrightarrow>
     (\<forall>v. c v = 1 \<or> c v = - 1) \<and>
     (\<forall>u < length g. reachable g s u \<longrightarrow> (\<forall>e \<in> set (g ! u). c (to e) = - c u))"

text \<open>The colours written so far are those of the colouring \<open>c\<close>.\<close>

definition agree :: "int list \<Rightarrow> (nat \<Rightarrow> int) \<Rightarrow> bool" where
  "agree color c \<longleftrightarrow> (\<forall>v < length color. color ! v \<noteq> 0 \<longrightarrow> color ! v = c v)"

section \<open>Predicates for the topological sort\<close>

text \<open>The arcs of a graph, read from the adjacency lists: from a vertex to the end of each of its
  edges.\<close>

definition arcs :: "graph \<Rightarrow> (nat \<times> nat) set" where
  "arcs g = {(u, to e) | u e. u < length g \<and> e \<in> set (g ! u)}"

text \<open>\<open>before xs a b\<close>: \<open>a\<close> appears in \<open>xs\<close> at a place before a place of \<open>b\<close>.\<close>

definition before :: "nat list \<Rightarrow> nat \<Rightarrow> nat \<Rightarrow> bool" where
  "before xs a b \<longleftrightarrow> (\<exists>as bs cs. xs = as @ a # bs @ b # cs)"

text \<open>The invariant of the topological sort between two calls of \<open>visit\<close>: the colours are
  \<open>0\<close> (not visited), \<open>1\<close> (on the current path) and \<open>2\<close> (finished); \<open>order\<close> lists the finished
  vertices once each; every edge of a finished vertex ends at a vertex finished before it.\<close>

definition ts_inv :: "graph \<Rightarrow> visit_state \<Rightarrow> bool" where
  "ts_inv g st \<longleftrightarrow>
     length (fst st) = length g \<and>
     (\<forall>v < length g. fst st ! v = 0 \<or> fst st ! v = 1 \<or> fst st ! v = 2) \<and>
     distinct (snd st) \<and>
     set (snd st) = {v. v < length g \<and> fst st ! v = 2} \<and>
     (\<forall>u < length g. fst st ! u = 2 \<longrightarrow> (\<forall>e \<in> set (g ! u). before (snd st) (to e) u))"

text \<open>What a call of \<open>visit\<close> that returns \<open>true\<close> leaves: the invariant, the colours of the
  vertices visited before, no new vertex on the current path, and \<open>order\<close> with new vertices at
  its end.\<close>

definition ts_step :: "graph \<Rightarrow> visit_state \<Rightarrow> visit_state \<Rightarrow> bool" where
  "ts_step g st st' \<longleftrightarrow>
     ts_inv g st' \<and>
     (\<forall>u < length g. fst st ! u \<noteq> 0 \<longrightarrow> fst st' ! u = fst st ! u) \<and>
     (\<forall>u < length g. fst st' ! u = 1 \<longrightarrow> fst st ! u = 1) \<and>
     (\<exists>zs. snd st' = snd st @ zs)"

text \<open>Every vertex on the current path reaches \<open>v\<close>.\<close>

definition gray_reach :: "graph \<Rightarrow> nat list \<Rightarrow> nat \<Rightarrow> bool" where
  "gray_reach g color v \<longleftrightarrow> (\<forall>u < length g. color ! u = 1 \<longrightarrow> (u, v) \<in> (arcs g)\<^sup>*)"

text \<open>The first place of a vertex in a list.\<close>

fun position :: "nat list \<Rightarrow> nat \<Rightarrow> nat" where
  "position [] v = 0"
| "position (x # xs) v = (if x = v then 0 else Suc (position xs v))"

section \<open>Walks and the invariant of Dijkstra\<close>

text \<open>\<open>walk g u w v\<close>: a walk along the adjacency lists leads from \<open>u\<close> to \<open>v\<close>, and the weights
  of its edges add up to \<open>w\<close>. The start of an edge is the vertex whose list holds it.\<close>

inductive walk :: "graph \<Rightarrow> nat \<Rightarrow> int \<Rightarrow> nat \<Rightarrow> bool" for g :: graph and u :: nat where
  walk_refl: "u < length g \<Longrightarrow> walk g u 0 u"
| walk_step: "walk g u w v \<Longrightarrow> e \<in> set (g ! v) \<Longrightarrow> walk g u (w + weight e) (to e)"

text \<open>\<open>d\<close> is the least total weight of a walk from \<open>u\<close> to \<open>v\<close>.\<close>

definition shortest :: "graph \<Rightarrow> nat \<Rightarrow> nat \<Rightarrow> int \<Rightarrow> bool" where
  "shortest g u v d \<longleftrightarrow> walk g u d v \<and> (\<forall>w. walk g u w v \<longrightarrow> d \<le> w)"

text \<open>Every weight of the graph lies between \<open>lo\<close> and \<open>hi\<close>.\<close>

definition weights_in :: "graph \<Rightarrow> int \<Rightarrow> int \<Rightarrow> bool" where
  "weights_in g lo hi \<longleftrightarrow> (\<forall>es \<in> set g. \<forall>e \<in> set es. lo \<le> weight e \<and> weight e \<le> hi)"

text \<open>No edge out of \<open>u\<close> can lower a distance.\<close>

definition relaxed :: "graph \<Rightarrow> int list \<Rightarrow> nat \<Rightarrow> bool" where
  "relaxed g dist u \<longleftrightarrow> (\<forall>e \<in> set (g ! u). dist ! to e \<le> dist ! u + weight e)"

text \<open>The invariant of the loop of \<open>Dijkstra\<close>. Distances lie between \<open>0\<close> and \<open>INF\<close>; one below
  \<open>INF\<close> is the weight of a walk from the source; an entry of the queue is the weight of a
  walk to its vertex and not below the distance of the vertex; a vertex outside \<open>X\<close> with a
  distance below \<open>INF\<close> and no entry at that distance in the queue has all its edges relaxed.\<close>

definition Dijkstra_inv :: "graph \<Rightarrow> nat \<Rightarrow> nat set \<Rightarrow> int list \<Rightarrow> queue \<Rightarrow> bool" where
  "Dijkstra_inv g s X dist que \<longleftrightarrow>
     length dist = length g \<and> dist ! s = 0 \<and>
     (\<forall>v < length g. 0 \<le> dist ! v \<and> dist ! v \<le> INFTY) \<and>
     (\<forall>v < length g. dist ! v < INFTY \<longrightarrow> walk g s (dist ! v) v) \<and>
     (\<forall>p \<in> set que. snd p < length g \<and> dist ! snd p \<le> fst p \<and> walk g s (fst p) (snd p)) \<and>
     (\<forall>u < length g. u \<notin> X \<and> dist ! u < INFTY \<and> (dist ! u, u) \<notin> set que \<longrightarrow> relaxed g dist u)"

section \<open>Paths and distance matrices\<close>

text \<open>\<open>paths B K i w j\<close>: steps of the relation \<open>B\<close>, joined only at vertices of \<open>K\<close>, lead from
  \<open>i\<close> to \<open>j\<close> with the total weight \<open>w\<close>.\<close>

inductive paths :: "(nat \<Rightarrow> int \<Rightarrow> nat \<Rightarrow> bool) \<Rightarrow> nat set \<Rightarrow> nat \<Rightarrow> int \<Rightarrow> nat \<Rightarrow> bool"
  for B :: "nat \<Rightarrow> int \<Rightarrow> nat \<Rightarrow> bool" and K :: "nat set" where
  paths_base: "B i w j \<Longrightarrow> paths B K i w j"
| paths_join: "paths B K i w1 m \<Longrightarrow> paths B K m w2 j \<Longrightarrow> m \<in> K \<Longrightarrow> paths B K i (w1 + w2) j"

text \<open>A matrix of \<open>n\<close> rows of \<open>n\<close> entries.\<close>

definition square :: "nat \<Rightarrow> matrix \<Rightarrow> bool" where
  "square n M \<longleftrightarrow> length M = n \<and> (\<forall>row \<in> set M. length row = n)"

text \<open>Every entry lies between \<open>0\<close> and \<open>INF\<close>, and one below \<open>INF\<close> is the weight of a walk of \<open>W\<close>.\<close>

definition sound :: "nat \<Rightarrow> (nat \<Rightarrow> int \<Rightarrow> nat \<Rightarrow> bool) \<Rightarrow> matrix \<Rightarrow> bool" where
  "sound n W M \<longleftrightarrow>
     (\<forall>i < n. \<forall>j < n. 0 \<le> M ! i ! j \<and> M ! i ! j \<le> INFTY \<and> (M ! i ! j < INFTY \<longrightarrow> W i (M ! i ! j) j))"

text \<open>No path of the class \<open>paths B K\<close> between a pair of \<open>S\<close> weighs less than the entry of the
  pair.\<close>

definition covers :: "(nat \<Rightarrow> int \<Rightarrow> nat \<Rightarrow> bool) \<Rightarrow> nat set \<Rightarrow> (nat \<times> nat) set \<Rightarrow> matrix \<Rightarrow> bool" where
  "covers B K S M \<longleftrightarrow> (\<forall>(i, j) \<in> S. \<forall>w. paths B K i w j \<longrightarrow> M ! i ! j \<le> w)"

text \<open>Entry by entry, \<open>M'\<close> is at most \<open>M\<close>.\<close>

definition below :: "nat \<Rightarrow> matrix \<Rightarrow> matrix \<Rightarrow> bool" where
  "below n M' M \<longleftrightarrow> (\<forall>i < n. \<forall>j < n. M' ! i ! j \<le> M ! i ! j)"

text \<open>The invariant of one pass of the relaxation loops with the middle vertex \<open>k\<close>: the pairs of
  \<open>S\<close> have been relaxed.\<close>

definition stage_inv ::
  "nat \<Rightarrow> (nat \<Rightarrow> int \<Rightarrow> nat \<Rightarrow> bool) \<Rightarrow> (nat \<Rightarrow> int \<Rightarrow> nat \<Rightarrow> bool) \<Rightarrow> nat set \<Rightarrow> nat \<Rightarrow>
     (nat \<times> nat) set \<Rightarrow> matrix \<Rightarrow> matrix \<Rightarrow> bool" where
  "stage_inv n W B K k S M M' \<longleftrightarrow>
     square n M' \<and> sound n W M' \<and> below n M' M \<and>
     covers B K ({..<n} \<times> {..<n}) M' \<and> covers B (insert k K) S M'"

section \<open>Predicates for Warshall-Floyd\<close>

text \<open>Every edge is stored in the list of its start, as \<open>add_edge\<close> and \<open>add_arc\<close> store it
  (\<open>WarshallFloyd\<close> reads the start from the edge, the other functions from the list).\<close>

definition stored :: "graph \<Rightarrow> bool" where
  "stored g \<longleftrightarrow> (\<forall>u < length g. \<forall>e \<in> set (g ! u). efrom e = u)"

text \<open>A step of length \<open>0\<close> or one edge of the graph.\<close>

definition step0 :: "graph \<Rightarrow> nat \<Rightarrow> int \<Rightarrow> nat \<Rightarrow> bool" where
  "step0 g i w j \<longleftrightarrow>
     i < length g \<and> ((i = j \<and> w = 0) \<or> (\<exists>e \<in> set (g ! i). w = weight e \<and> j = to e))"

text \<open>\<open>M\<close> is the matrix of the least walk weights of \<open>g\<close>, cut off at \<open>INF\<close>.\<close>

definition distances :: "graph \<Rightarrow> matrix \<Rightarrow> bool" where
  "distances g M \<longleftrightarrow>
     square (length g) M \<and> sound (length g) (walk g) M \<and>
     (\<forall>i < length g. \<forall>j < length g. \<forall>w. walk g i w j \<longrightarrow> M ! i ! j \<le> w)"

text \<open>The invariant of the loops that enter the edges into the matrix: the edges of \<open>E\<close> have
  been entered.\<close>

definition edge_inv :: "graph \<Rightarrow> (nat \<times> edge) set \<Rightarrow> matrix \<Rightarrow> bool" where
  "edge_inv g E M \<longleftrightarrow>
     square (length g) M \<and> sound (length g) (walk g) M \<and> (\<forall>i < length g. M ! i ! i = 0) \<and>
     (\<forall>(u, e) \<in> E. u < length g \<and> to e < length g \<and> M ! u ! to e \<le> weight e)"

section \<open>Predicates for the calls on the structures of the caller\<close>

text \<open>A call that ends as \<open>res\<close> and leaves \<open>r\<close> behind the reference.\<close>

definition leaves :: "'r \<Rightarrow> error + 'l \<Rightarrow> error + 'r \<times> 'l" where
  "leaves r res = (case res of Inl err \<Rightarrow> Inl err | Inr l \<Rightarrow> Inr (r, l))"

text \<open>The same for a call that returns a flag with its state.\<close>

definition leaves_flag :: "'r \<Rightarrow> error + bool \<times> 'l \<Rightarrow> error + bool \<times> 'r \<times> 'l" where
  "leaves_flag r res = (case res of Inl err \<Rightarrow> Inl err | Inr (b, l) \<Rightarrow> Inr (b, r, l))"


section \<open>Loops\<close>






section \<open>Uncoloured vertices\<close>

lemma white_update:
  assumes "i < length color" "color ! i = 0" "clr \<noteq> 0"
  shows "white (color[i := clr]) = white color - {i}"
  using assms by (auto simp: white_def nth_list_update)

lemma finite_white: "finite (white color)"
  by (simp add: white_def)

lemma card_white_update:
  assumes "i < length color" "color ! i = 0" "clr \<noteq> 0" "card (white color) \<le> Suc n"
  shows "card (white (color[i := clr])) \<le> n"
proof -
  have "i \<in> white color" using assms by (simp add: white_def)
  then have "card (white color - {i}) = card (white color) - 1"
    by (simp add: finite_white)
  then show ?thesis using assms by (simp add: white_update)
qed

section \<open>Graphs\<close>

lemma INFTY_val: "INFTY = 214748364"
  by (simp add: INFTY_def T_max_def)

lemma weights_in_D:
  "weights_in g lo hi \<Longrightarrow> u < length g \<Longrightarrow> e \<in> set (g ! u) \<Longrightarrow> lo \<le> weight e \<and> weight e \<le> hi"
  unfolding weights_in_def by (meson nth_mem)

lemma wf_graph_D: "wf_graph g \<Longrightarrow> u < length g \<Longrightarrow> e \<in> set (g ! u) \<Longrightarrow> to e < length g"
  unfolding wf_graph_def by (meson nth_mem)

section \<open>The relaxation loops\<close>

lemma paths_mono: "paths B K i w j \<Longrightarrow> K \<subseteq> K' \<Longrightarrow> paths B K' i w j"
  by (induction rule: paths.induct) (auto intro: paths.intros)

lemma paths_nonneg:
  assumes "\<And>i w j. B i w j \<Longrightarrow> 0 \<le> w" "paths B K i w j"
  shows "0 \<le> w"
  using assms(2) by (induction rule: paths.induct) (auto dest: assms(1))

lemma paths_split:
  assumes nn: "\<And>i w j. B i w j \<Longrightarrow> 0 \<le> w" and p: "paths B (insert k K) i w j"
  shows "(\<exists>w' \<le> w. paths B K i w' j) \<or>
         (\<exists>w1 w2. paths B K i w1 k \<and> paths B K k w2 j \<and> w1 + w2 \<le> w)"
  using p
proof (induction rule: paths.induct)
  case (paths_base i w j)
  then have "paths B K i w j" by (rule paths.paths_base)
  then show ?case by auto
next
  case (paths_join i w1 m w2 j)
  have nnK: "0 \<le> w" if "paths B K i w j" for i w j
    by (rule paths_nonneg[of B, OF _ that]) (rule nn)
  from paths_join.IH(1) consider
    (A) a where "a \<le> w1" "paths B K i a m"
    | (A2) a1 a2 where "paths B K i a1 k" "paths B K k a2 m" "a1 + a2 \<le> w1" by blast
  then show ?case
  proof cases
    case A
    from paths_join.IH(2) consider
      (B) b where "b \<le> w2" "paths B K m b j"
      | (B2) b1 b2 where "paths B K m b1 k" "paths B K k b2 j" "b1 + b2 \<le> w2" by blast
    then show ?thesis
    proof cases
      case B
      show ?thesis
      proof (cases "m = k")
        case True
        with A B have "paths B K i a k" "paths B K k b j" "a + b \<le> w1 + w2" by simp_all
        then show ?thesis by blast
      next
        case False
        with paths_join.hyps(3) have "m \<in> K" by simp
        with A B have "paths B K i (a + b) j" by (intro paths.paths_join)
        moreover have "a + b \<le> w1 + w2" using A B by simp
        ultimately show ?thesis by blast
      qed
    next
      case B2
      show ?thesis
      proof (cases "m = k")
        case True
        with A have "paths B K i a k" by simp
        moreover have "a + b2 \<le> w1 + w2" using A B2 nnK[OF B2(1)] by simp
        ultimately show ?thesis using B2(2) by blast
      next
        case False
        with paths_join.hyps(3) have "m \<in> K" by simp
        with A B2 have "paths B K i (a + b1) k" by (intro paths.paths_join)
        moreover have "(a + b1) + b2 \<le> w1 + w2" using A B2 by simp
        ultimately show ?thesis using B2(2) by blast
      qed
    qed
  next
    case A2
    from paths_join.IH(2) consider
      (B) b where "b \<le> w2" "paths B K m b j"
      | (B2) b1 b2 where "paths B K m b1 k" "paths B K k b2 j" "b1 + b2 \<le> w2" by blast
    then show ?thesis
    proof cases
      case B
      show ?thesis
      proof (cases "m = k")
        case True
        with B have "paths B K k b j" by simp
        moreover have "a1 + b \<le> w1 + w2" using A2 B nnK[OF A2(2)] by simp
        ultimately show ?thesis using A2(1) by blast
      next
        case False
        with paths_join.hyps(3) have "m \<in> K" by simp
        with A2 B have "paths B K k (a2 + b) j" by (intro paths.paths_join)
        moreover have "a1 + (a2 + b) \<le> w1 + w2" using A2 B by simp
        ultimately show ?thesis using A2(1) by blast
      qed
    next
      case B2
      have "a1 + b2 \<le> w1 + w2" using A2 B2 nnK[OF A2(2)] nnK[OF B2(1)] by simp
      with A2(1) B2(2) show ?thesis by blast
    qed
  qed
qed


lemma square_length: "square n M \<Longrightarrow> length M = n"
  unfolding square_def by blast

lemma square_row: "square n M \<Longrightarrow> i < n \<Longrightarrow> length (M ! i) = n"
  unfolding square_def by (metis nth_mem)

lemma square_update:
  assumes "square n M" "i < n"
  shows "square n (M[i := (M ! i)[j := x]])"
  unfolding square_def
proof (intro conjI ballI)
  show "length (M[i := (M ! i)[j := x]]) = n" using square_length[OF assms(1)] by simp
next
  fix row assume "row \<in> set (M[i := (M ! i)[j := x]])"
  then have "row \<in> insert ((M ! i)[j := x]) (set M)" using set_update_subset_insert by fastforce
  then show "length row = n"
    using assms square_row[OF assms] unfolding square_def by auto
qed

lemma nth_update2:
  assumes "square n M" "i < n" "j < n" "i' < n" "j' < n"
  shows "M[i := (M ! i)[j := x]] ! i' ! j' = (if i' = i \<and> j' = j then x else M ! i' ! j')"
  using assms square_length[OF assms(1)] square_row[OF assms(1,2)]
  by (cases "i' = i"; cases "j' = j") simp_all

lemma sound_D:
  "sound n W M \<Longrightarrow> i < n \<Longrightarrow> j < n \<Longrightarrow>
     0 \<le> M ! i ! j \<and> M ! i ! j \<le> INFTY \<and> (M ! i ! j < INFTY \<longrightarrow> W i (M ! i ! j) j)"
  unfolding sound_def by blast

lemma covers_D: "covers B K S M \<Longrightarrow> (i, j) \<in> S \<Longrightarrow> paths B K i w j \<Longrightarrow> M ! i ! j \<le> w"
  unfolding covers_def by blast

lemma below_D: "below n M' M \<Longrightarrow> i < n \<Longrightarrow> j < n \<Longrightarrow> M' ! i ! j \<le> M ! i ! j"
  unfolding below_def by blast

lemma below_refl: "below n M M"
  unfolding below_def by simp

lemma below_trans: "below n M2 M1 \<Longrightarrow> below n M1 M \<Longrightarrow> below n M2 M"
  unfolding below_def by (meson order_trans)

lemma covers_below:
  assumes "covers B K S M" "below n M' M" "S \<subseteq> {..<n} \<times> {..<n}"
  shows "covers B K S M'"
  unfolding covers_def
proof (intro ballI allI impI, clarify)
  fix i j w assume ij: "(i, j) \<in> S" and p: "paths B K i w j"
  from ij assms(3) have "i < n" "j < n" by auto
  from below_D[OF assms(2) this] covers_D[OF assms(1) ij p] show "M' ! i ! j \<le> w" by simp
qed

lemma covers_insert:
  assumes "covers B K S M" "\<And>w. paths B K i w j \<Longrightarrow> M ! i ! j \<le> w"
  shows "covers B K (insert (i, j) S) M"
  using assms unfolding covers_def by auto

lemma covers_split_bound:
  assumes nn: "\<And>i w j. B i w j \<Longrightarrow> 0 \<le> w"
    and cK: "covers B K ({..<n} \<times> {..<n}) M" and i: "i < n" and j: "j < n" and k: "k < n"
    and p: "paths B (insert k K) i w j"
  shows "M ! i ! j \<le> w \<or> (M ! i ! k + M ! k ! j \<le> w \<and> 0 \<le> w - M ! i ! k \<and> 0 \<le> w - M ! k ! j)"
proof -
  have "(\<exists>w' \<le> w. paths B K i w' j) \<or>
         (\<exists>w1 w2. paths B K i w1 k \<and> paths B K k w2 j \<and> w1 + w2 \<le> w)"
    by (rule paths_split[OF _ p]) (rule nn)
  then consider
    (direct) w' where "w' \<le> w" "paths B K i w' j"
    | (via) w1 w2 where "paths B K i w1 k" "paths B K k w2 j" "w1 + w2 \<le> w" by blast
  then show ?thesis
  proof cases
    case direct
    from covers_D[OF cK _ direct(2)] i j direct(1) show ?thesis by simp
  next
    case via
    have "M ! i ! k \<le> w1" using covers_D[OF cK _ via(1)] i k by simp
    moreover have "M ! k ! j \<le> w2" using covers_D[OF cK _ via(2)] k j by simp
    moreover have "0 \<le> w1" by (rule paths_nonneg[of B, OF _ via(1)]) (rule nn)
    moreover have "0 \<le> w2" by (rule paths_nonneg[of B, OF _ via(2)]) (rule nn)
    ultimately show ?thesis using via(3) by simp
  qed
qed

lemma relax_step:
  assumes sq: "square n M" and i: "i < n" and j: "j < n" and k: "k < n"
    and snd: "sound n W M"
    and tr: "\<And>i w1 k w2 j. W i w1 k \<Longrightarrow> W k w2 j \<Longrightarrow> W i (w1 + w2) j"
    and nn: "\<And>i w j. B i w j \<Longrightarrow> 0 \<le> w"
    and cK: "covers B K ({..<n} \<times> {..<n}) M"
    and cS: "covers B (insert k K) S M" and S: "S \<subseteq> {..<n} \<times> {..<n}"
  shows "\<exists>M'. relax k i j M = Inr M' \<and> square n M' \<and> sound n W M' \<and> below n M' M \<and>
      covers B K ({..<n} \<times> {..<n}) M' \<and> covers B (insert k K) (insert (i, j) S) M'"
proof -
  have len: "length M = n" "length (M ! i) = n" "length (M ! k) = n"
    using square_length[OF sq] square_row[OF sq i] square_row[OF sq k] by simp_all
  note sik = sound_D[OF snd i k] and skj = sound_D[OF snd k j] and sij = sound_D[OF snd i j]
  have bound: "M ! i ! j \<le> w \<or> (M ! i ! k + M ! k ! j \<le> w \<and> 0 \<le> w - M ! i ! k \<and> 0 \<le> w - M ! k ! j)"
    if "paths B (insert k K) i w j" for w
    by (rule covers_split_bound[OF _ cK i j k that]) (rule nn)
  show ?thesis
  proof (cases "M ! i ! k = INFTY \<or> M ! k ! j = INFTY")
    case True
    then have run: "relax k i j M = Inr M" using len i j k by (auto simp: relax_def)
    have "M ! i ! j \<le> w" if "paths B (insert k K) i w j" for w
      using bound[OF that] True sij sik skj by auto
    then have "covers B (insert k K) (insert (i, j) S) M" by (rule covers_insert[OF cS])
    with run sq snd cK below_refl show ?thesis by blast
  next
    case False
    then have fin: "M ! i ! k < INFTY" "M ! k ! j < INFTY" using sik skj by auto
    let ?s = "M ! i ! k + M ! k ! j"
    let ?M = "M[i := (M ! i)[j := min (M ! i ! j) ?s]]"
    have add: "add_T (M ! i ! k) (M ! k ! j) = Inr ?s"
      using fin sik skj by (simp add: add_T_def T_min_def T_max_def INFTY_val)
    have run: "relax k i j M = Inr ?M" using False len i j k add by (simp add: relax_def)
    have nth: "?M ! i' ! j' = (if i' = i \<and> j' = j then min (M ! i ! j) ?s else M ! i' ! j')"
      if "i' < n" "j' < n" for i' j'
      by (rule nth_update2[OF sq i j that])
    have sq': "square n ?M" by (rule square_update[OF sq i])
    have bel: "below n ?M M" unfolding below_def using nth by simp
    have w: "W i ?s j" using tr sik skj fin by blast
    have snd': "sound n W ?M" unfolding sound_def
    proof (intro allI impI)
      fix i' j' assume ij': "i' < n" "j' < n"
      show "0 \<le> ?M ! i' ! j' \<and> ?M ! i' ! j' \<le> INFTY \<and> (?M ! i' ! j' < INFTY \<longrightarrow> W i' (?M ! i' ! j') j')"
      proof (cases "i' = i \<and> j' = j")
        case True
        then show ?thesis using nth[OF ij'] sij sik skj w by (auto simp: min_def)
      next
        case False
        then show ?thesis using nth[OF ij'] sound_D[OF snd ij'] by auto
      qed
    qed
    have cK': "covers B K ({..<n} \<times> {..<n}) ?M" by (rule covers_below[OF cK bel]) simp
    have cS': "covers B (insert k K) S ?M" by (rule covers_below[OF cS bel S])
    have "?M ! i ! j \<le> w" if "paths B (insert k K) i w j" for w
      using bound[OF that] nth[OF i j] by auto
    then have "covers B (insert k K) (insert (i, j) S) ?M" by (rule covers_insert[OF cS'])
    with run sq' snd' bel cK' show ?thesis by blast
  qed
qed


lemma for_each_total_aux:
  assumes step: "\<And>ys x zs t. xs = ys @ x # zs \<Longrightarrow> I ys t \<Longrightarrow> \<exists>t'. body x t = Inr t' \<and> I (ys @ [x]) t'"
    and "xs = ps @ rest" "I ps s"
  shows "\<exists>s'. for_each rest body s = Inr s' \<and> I xs s'"
  using assms(2,3)
proof (induction rest arbitrary: ps s)
  case Nil
  then show ?case by simp
next
  case (Cons x rest)
  from step[OF Cons.prems(1) Cons.prems(2)]
  obtain t' where b: "body x s = Inr t'" and i: "I (ps @ [x]) t'" by blast
  from Cons.prems(1) have "xs = (ps @ [x]) @ rest" by simp
  from Cons.IH[OF this i] obtain s' where "for_each rest body t' = Inr s'" "I xs s'" by blast
  with b show ?case by simp
qed

lemma for_each_total:
  assumes "I [] s"
    and "\<And>ys x zs t. xs = ys @ x # zs \<Longrightarrow> I ys t \<Longrightarrow> \<exists>t'. body x t = Inr t' \<and> I (ys @ [x]) t'"
  shows "\<exists>s'. for_each xs body s = Inr s' \<and> I xs s'"
proof (rule for_each_total_aux[where ps = "[]" and I = I])
  show "xs = [] @ xs" by simp
  show "I [] s" by (rule assms(1))
next
  fix ys x zs t assume "xs = ys @ x # zs" "I ys t"
  then show "\<exists>t'. body x t = Inr t' \<and> I (ys @ [x]) t'" by (rule assms(2))
qed

lemma upt_split_lt: "[0..<n] = ys @ x # zs \<Longrightarrow> x < n"
proof -
  assume "[0..<n] = ys @ x # zs"
  then have "x \<in> set [0..<n]" by (metis in_set_conv_decomp)
  then show ?thesis by simp
qed

lemma upt_split_set: "[0..<n] = ys @ x # zs \<Longrightarrow> set ys \<subseteq> {..<n}"
proof -
  assume a: "[0..<n] = ys @ x # zs"
  have "set ys \<subseteq> set [0..<n]" unfolding a by auto
  then show ?thesis by auto
qed

lemma stage_invI:
  "square n M' \<Longrightarrow> sound n W M' \<Longrightarrow> below n M' M \<Longrightarrow> covers B K ({..<n} \<times> {..<n}) M' \<Longrightarrow>
     covers B (insert k K) S M' \<Longrightarrow> stage_inv n W B K k S M M'"
  unfolding stage_inv_def by (intro conjI)

lemma stage_invD:
  assumes "stage_inv n W B K k S M M'"
  shows "square n M'" "sound n W M'" "below n M' M" "covers B K ({..<n} \<times> {..<n}) M'"
    "covers B (insert k K) S M'"
  using assms unfolding stage_inv_def by blast+

lemma relax_row:
  assumes i: "i < n" and k: "k < n"
    and tr: "\<And>i w1 k w2 j. W i w1 k \<Longrightarrow> W k w2 j \<Longrightarrow> W i (w1 + w2) j"
    and nn: "\<And>i w j. B i w j \<Longrightarrow> 0 \<le> w"
    and inv: "stage_inv n W B K k S M M1" and S: "S \<subseteq> {..<n} \<times> {..<n}"
  shows "\<exists>M'. for_each [0..<n] (\<lambda>j. relax k i j) M1 = Inr M' \<and>
      stage_inv n W B K k (S \<union> {i} \<times> {..<n}) M M'"
proof -
  define I where "I ys M' = stage_inv n W B K k (S \<union> {i} \<times> set ys) M M'" for ys M'
  have init: "I [] M1" using inv unfolding I_def by (simp only: list.set Sigma_empty2 Un_empty_right)
  have step: "\<exists>t'. relax k i j t = Inr t' \<and> I (ys @ [j]) t'"
    if split: "[0..<n] = ys @ j # zs" and t: "I ys t" for ys j zs t
  proof -
    have j: "j < n" by (rule upt_split_lt[OF split])
    have sub: "S \<union> {i} \<times> set ys \<subseteq> {..<n} \<times> {..<n}"
      using S i upt_split_set[OF split] by auto
    note d = stage_invD[OF t[unfolded I_def]]
    have "\<exists>M'. relax k i j t = Inr M' \<and> square n M' \<and> sound n W M' \<and> below n M' t \<and>
      covers B K ({..<n} \<times> {..<n}) M' \<and> covers B (insert k K) (insert (i, j) (S \<union> {i} \<times> set ys)) M'"
    proof (rule relax_step[OF d(1) i j k d(2) _ _ d(4) d(5) sub])
      fix i w1 k w2 j assume "W i w1 k" "W k w2 j" then show "W i (w1 + w2) j" by (rule tr)
    next
      fix i w j assume "B i w j" then show "0 \<le> w" by (rule nn)
    qed
    then obtain M' where r: "relax k i j t = Inr M'" and sq': "square n M'" and snd': "sound n W M'"
      and bel': "below n M' t" and cK': "covers B K ({..<n} \<times> {..<n}) M'"
      and cS': "covers B (insert k K) (insert (i, j) (S \<union> {i} \<times> set ys)) M'" by blast
    have "insert (i, j) (S \<union> {i} \<times> set ys) = S \<union> {i} \<times> set (ys @ [j])" by auto
    with cS' have c5: "covers B (insert k K) (S \<union> {i} \<times> set (ys @ [j])) M'" by (simp only:)
    have "I (ys @ [j]) M'" unfolding I_def
      by (rule stage_invI[OF sq' snd' below_trans[OF bel' d(3)] cK' c5])
    with r show ?thesis by (intro exI[of _ M'] conjI)
  qed
  have "\<exists>M'. for_each [0..<n] (\<lambda>j. relax k i j) M1 = Inr M' \<and> I [0..<n] M'"
    by (rule for_each_total[of I M1 "[0..<n]" "\<lambda>j. relax k i j", OF init]) (rule step)
  then obtain M' where r: "for_each [0..<n] (\<lambda>j. relax k i j) M1 = Inr M'" and st: "I [0..<n] M'"
    by blast
  have "set [0..<n] = {..<n}" by auto
  with st have "stage_inv n W B K k (S \<union> {i} \<times> {..<n}) M M'" unfolding I_def by (simp only:)
  with r show ?thesis by (intro exI[of _ M'] conjI)
qed

lemma relax_all_stage:
  assumes k: "k < n"
    and tr: "\<And>i w1 k w2 j. W i w1 k \<Longrightarrow> W k w2 j \<Longrightarrow> W i (w1 + w2) j"
    and nn: "\<And>i w j. B i w j \<Longrightarrow> 0 \<le> w"
    and sq: "square n M" and snd: "sound n W M" and cK: "covers B K ({..<n} \<times> {..<n}) M"
  shows "\<exists>M'. relax_all n k M = Inr M' \<and> square n M' \<and> sound n W M' \<and> below n M' M \<and>
      covers B (insert k K) ({..<n} \<times> {..<n}) M'"
proof -
  define I where "I ys M' = stage_inv n W B K k (set ys \<times> {..<n}) M M'" for ys M'
  have "covers B (insert k K) (set [] \<times> {..<n}) M" unfolding covers_def by simp
  then have init: "I [] M" unfolding I_def by (rule stage_invI[OF sq snd below_refl cK])
  have step: "\<exists>t'. for_each [0..<n] (\<lambda>j. relax k i j) t = Inr t' \<and> I (ys @ [i]) t'"
    if split: "[0..<n] = ys @ i # zs" and t: "I ys t" for ys i zs t
  proof -
    have i: "i < n" by (rule upt_split_lt[OF split])
    have sub: "set ys \<times> {..<n} \<subseteq> {..<n} \<times> {..<n}" using upt_split_set[OF split] by auto
    have "\<exists>M'. for_each [0..<n] (\<lambda>j. relax k i j) t = Inr M' \<and>
      stage_inv n W B K k (set ys \<times> {..<n} \<union> {i} \<times> {..<n}) M M'"
    proof (rule relax_row[OF i k _ _ t[unfolded I_def] sub])
      fix i w1 k w2 j assume "W i w1 k" "W k w2 j" then show "W i (w1 + w2) j" by (rule tr)
    next
      fix i w j assume "B i w j" then show "0 \<le> w" by (rule nn)
    qed
    then obtain M' where r: "for_each [0..<n] (\<lambda>j. relax k i j) t = Inr M'"
      and st: "stage_inv n W B K k (set ys \<times> {..<n} \<union> {i} \<times> {..<n}) M M'" by blast
    have "set ys \<times> {..<n} \<union> {i} \<times> {..<n} = set (ys @ [i]) \<times> {..<n}" by auto
    with st have "I (ys @ [i]) M'" unfolding I_def by (simp only:)
    with r show ?thesis by (intro exI[of _ M'] conjI)
  qed
  have "\<exists>M'. for_each [0..<n] (\<lambda>i. for_each [0..<n] (\<lambda>j. relax k i j)) M = Inr M' \<and> I [0..<n] M'"
    by (rule for_each_total[of I M "[0..<n]" "\<lambda>i. for_each [0..<n] (\<lambda>j. relax k i j)", OF init])
      (rule step)
  then obtain M' where r: "for_each [0..<n] (\<lambda>i. for_each [0..<n] (\<lambda>j. relax k i j)) M = Inr M'"
    and st: "I [0..<n] M'" by blast
  have "set [0..<n] = {..<n}" by auto
  with st have st': "stage_inv n W B K k ({..<n} \<times> {..<n}) M M'" unfolding I_def by (simp only:)
  note d = stage_invD[OF st']
  from r have "relax_all n k M = Inr M'" by (simp add: relax_all_def)
  with d show ?thesis by (intro exI[of _ M'] conjI)
qed

lemma relax_stages:
  assumes ks: "\<forall>k \<in> set ks. k < n"
    and tr: "\<And>i w1 k w2 j. W i w1 k \<Longrightarrow> W k w2 j \<Longrightarrow> W i (w1 + w2) j"
    and nn: "\<And>i w j. B i w j \<Longrightarrow> 0 \<le> w"
    and sq: "square n M" and snd: "sound n W M" and cK: "covers B {} ({..<n} \<times> {..<n}) M"
  shows "\<exists>M'. for_each ks (relax_all n) M = Inr M' \<and> square n M' \<and> sound n W M' \<and> below n M' M \<and>
      covers B (set ks) ({..<n} \<times> {..<n}) M'"
proof -
  define I where "I ys M' \<longleftrightarrow> square n M' \<and> sound n W M' \<and> below n M' M \<and>
      covers B (set ys) ({..<n} \<times> {..<n}) M'" for ys M'
  have init: "I [] M" unfolding I_def using sq snd cK below_refl by simp
  have step: "\<exists>t'. relax_all n k t = Inr t' \<and> I (ys @ [k]) t'"
    if split: "ks = ys @ k # zs" and t: "I ys t" for ys k zs t
  proof -
    from ks split have k: "k < n" by simp
    from t have sq': "square n t" and snd': "sound n W t" and bel: "below n t M"
      and c: "covers B (set ys) ({..<n} \<times> {..<n}) t" unfolding I_def by blast+
    have "\<exists>M'. relax_all n k t = Inr M' \<and> square n M' \<and> sound n W M' \<and> below n M' t \<and>
      covers B (insert k (set ys)) ({..<n} \<times> {..<n}) M'"
    proof (rule relax_all_stage[OF k _ _ sq' snd' c])
      fix i w1 k w2 j assume "W i w1 k" "W k w2 j" then show "W i (w1 + w2) j" by (rule tr)
    next
      fix i w j assume "B i w j" then show "0 \<le> w" by (rule nn)
    qed
    then obtain M' where r: "relax_all n k t = Inr M'" and a: "square n M'" "sound n W M'"
      and b: "below n M' t" and c': "covers B (insert k (set ys)) ({..<n} \<times> {..<n}) M'" by blast
    have "insert k (set ys) = set (ys @ [k])" by simp
    with c' have "covers B (set (ys @ [k])) ({..<n} \<times> {..<n}) M'" by (simp only:)
    with a below_trans[OF b bel] have "I (ys @ [k]) M'" unfolding I_def by (intro conjI)
    with r show ?thesis by (intro exI[of _ M'] conjI)
  qed
  have "\<exists>M'. for_each ks (relax_all n) M = Inr M' \<and> I ks M'"
    by (rule for_each_total[of I M ks "relax_all n", OF init]) (rule step)
  then show ?thesis unfolding I_def by blast
qed

section \<open>Warshall-Floyd computes the least walk weights\<close>

lemma walk_range:
  assumes "wf_graph g" "walk g u w v"
  shows "u < length g \<and> v < length g"
  using assms(2)
proof (induction rule: walk.induct)
  case walk_refl
  then show ?case by simp
next
  case (walk_step w v e)
  then show ?case using wf_graph_D[OF assms(1), of v e] by simp
qed

lemma walk_trans:
  assumes "walk g i w1 k" "walk g k w2 j"
  shows "walk g i (w1 + w2) j"
  using assms(2)
proof (induction rule: walk.induct)
  case walk_refl
  with assms(1) show ?case by simp
next
  case (walk_step w v e)
  from walk.walk_step[OF walk_step.IH walk_step.hyps(2)]
  show ?case by (simp add: add.assoc)
qed

lemma walk_edge: "u < length g \<Longrightarrow> e \<in> set (g ! u) \<Longrightarrow> walk g u (weight e) (to e)"
  using walk_step[OF walk_refl, of u g e] by simp

lemma walk_nonneg:
  assumes "weights_in g 0 hi" "wf_graph g" "walk g u w v"
  shows "0 \<le> w"
  using assms(3)
proof (induction rule: walk.induct)
  case walk_refl
  then show ?case by simp
next
  case (walk_step w v e)
  from walk_range[OF assms(2) walk_step.hyps(1)] have "v < length g" by simp
  from weights_in_D[OF assms(1) this walk_step.hyps(2)] walk_step.IH show ?case by simp
qed

lemma step0_nonneg: "weights_in g 0 hi \<Longrightarrow> step0 g i w j \<Longrightarrow> 0 \<le> w"
  unfolding step0_def using weights_in_D[of g 0 hi i] by auto

lemma paths_empty: "paths B {} i w j \<Longrightarrow> B i w j"
  by (induction rule: paths.induct) auto

lemma walk_paths:
  assumes "wf_graph g" "walk g i w j"
  shows "paths (step0 g) {..<length g} i w j"
  using assms(2)
proof (induction rule: walk.induct)
  case walk_refl
  then show ?case by (intro paths_base) (simp add: step0_def)
next
  case (walk_step w v e)
  from walk_range[OF assms(1) walk_step.hyps(1)] have v: "v < length g" by simp
  with walk_step.hyps(2) have "step0 g v (weight e) (to e)" unfolding step0_def by blast
  then have "paths (step0 g) {..<length g} v (weight e) (to e)" by (rule paths_base)
  with walk_step.IH show ?case using v by (intro paths_join) simp_all
qed

lemma distances_unique:
  assumes "distances g M" "distances g M'"
  shows "M = M'"
proof -
  let ?n = "length g"
  from assms have sq: "square ?n M" "square ?n M'" and snd: "sound ?n (walk g) M" "sound ?n (walk g) M'"
    and le: "\<And>i j w. i < ?n \<Longrightarrow> j < ?n \<Longrightarrow> walk g i w j \<Longrightarrow> M ! i ! j \<le> w"
    and le': "\<And>i j w. i < ?n \<Longrightarrow> j < ?n \<Longrightarrow> walk g i w j \<Longrightarrow> M' ! i ! j \<le> w"
    unfolding distances_def by blast+
  have entry: "M ! i ! j = M' ! i ! j" if ij: "i < ?n" "j < ?n" for i j
  proof -
    note a = sound_D[OF snd(1) ij] and b = sound_D[OF snd(2) ij]
    show ?thesis
    proof (cases "M ! i ! j < INFTY")
      case True
      with a have w: "walk g i (M ! i ! j) j" by simp
      from le'[OF ij w] True have lt: "M' ! i ! j < INFTY" by simp
      with b have "walk g i (M' ! i ! j) j" by simp
      from le[OF ij this] le'[OF ij w] show ?thesis by simp
    next
      case False
      with a have eq: "M ! i ! j = INFTY" by simp
      have "\<not> M' ! i ! j < INFTY"
      proof
        assume lt: "M' ! i ! j < INFTY"
        with b have "walk g i (M' ! i ! j) j" by simp
        from le[OF ij this] lt eq show False by simp
      qed
      with b eq show ?thesis by simp
    qed
  qed
  show ?thesis
  proof (rule nth_equalityI)
    show "length M = length M'" using square_length[OF sq(1)] square_length[OF sq(2)] by simp
  next
    fix i assume "i < length M"
    then have i: "i < ?n" using square_length[OF sq(1)] by simp
    show "M ! i = M' ! i"
    proof (rule nth_equalityI)
      show "length (M ! i) = length (M' ! i)" using square_row[OF sq(1) i] square_row[OF sq(2) i] by simp
    next
      fix j assume "j < length (M ! i)"
      then have "j < ?n" using square_row[OF sq(1) i] by simp
      with i show "M ! i ! j = M' ! i ! j" by (rule entry)
    qed
  qed
qed


lemma coversI:
  "(\<And>i j w. (i, j) \<in> S \<Longrightarrow> paths B K i w j \<Longrightarrow> M ! i ! j \<le> w) \<Longrightarrow> covers B K S M"
  unfolding covers_def by auto

lemma INFTY_pos: "0 < INFTY"
  by (simp add: INFTY_val)

lemma square_replicate: "square n (replicate n (replicate n x))"
  unfolding square_def by simp

lemma set_diag_loop:
  "\<exists>D. for_each [0..<n] set_diag (replicate n (replicate n INFTY)) = Inr D \<and> square n D \<and>
       (\<forall>i < n. \<forall>j < n. D ! i ! j = (if i = j then 0 else INFTY))"
proof -
  define I where "I ys M \<longleftrightarrow> square n M \<and>
    (\<forall>i < n. \<forall>j < n. M ! i ! j = (if i = j \<and> i \<in> set ys then 0 else INFTY))" for ys M
  have init: "I [] (replicate n (replicate n INFTY))"
    unfolding I_def using square_replicate by simp
  have step: "\<exists>t'. set_diag i t = Inr t' \<and> I (ys @ [i]) t'"
    if split: "[0..<n] = ys @ i # zs" and t: "I ys t" for ys i zs t
  proof -
    have i: "i < n" by (rule upt_split_lt[OF split])
    from t have sq: "square n t"
      and val: "\<And>a b. a < n \<Longrightarrow> b < n \<Longrightarrow> t ! a ! b = (if a = b \<and> a \<in> set ys then 0 else INFTY)"
      unfolding I_def by blast+
    let ?t = "t[i := (t ! i)[i := 0]]"
    have run: "set_diag i t = Inr ?t"
      using i square_length[OF sq] square_row[OF sq i] by (simp add: set_diag_def)
    have "?t ! a ! b = (if a = b \<and> a \<in> set (ys @ [i]) then 0 else INFTY)" if "a < n" "b < n" for a b
      using nth_update2[OF sq i i that, of 0] val[OF that] by auto
    then have "I (ys @ [i]) ?t" unfolding I_def using square_update[OF sq i] by blast
    with run show ?thesis by (intro exI[of _ ?t] conjI)
  qed
  have "\<exists>D. for_each [0..<n] set_diag (replicate n (replicate n INFTY)) = Inr D \<and> I [0..<n] D"
    by (rule for_each_total[of I _ "[0..<n]" set_diag, OF init]) (rule step)
  then obtain D where r: "for_each [0..<n] set_diag (replicate n (replicate n INFTY)) = Inr D"
    and "I [0..<n] D" by blast
  then have "square n D \<and> (\<forall>i < n. \<forall>j < n. D ! i ! j = (if i = j then 0 else INFTY))"
    unfolding I_def by simp
  with r show ?thesis by (intro exI[of _ D]) simp
qed

lemma edge_invD:
  assumes "edge_inv g E M"
  shows "square (length g) M" "sound (length g) (walk g) M" "\<And>i. i < length g \<Longrightarrow> M ! i ! i = 0"
    "\<And>u e. (u, e) \<in> E \<Longrightarrow> u < length g \<and> to e < length g \<and> M ! u ! to e \<le> weight e"
  using assms unfolding edge_inv_def by blast+

lemma set_edge_step:
  assumes inv: "edge_inv g E M" and u: "u < length g" and e: "e \<in> set (g ! u)"
    and st: "efrom e = u" and te: "to e < length g" and we: "0 \<le> weight e"
  shows "\<exists>M'. set_edge e M = Inr M' \<and> edge_inv g (insert (u, e) E) M'"
proof -
  let ?n = "length g"
  note d = edge_invD[OF inv]
  let ?x = "min (M ! u ! to e) (weight e)"
  let ?M = "M[u := (M ! u)[to e := ?x]]"
  have run: "set_edge e M = Inr ?M"
    using st u te square_length[OF d(1)] square_row[OF d(1) u] by (simp add: set_edge_def)
  have nth: "?M ! a ! b = (if a = u \<and> b = to e then ?x else M ! a ! b)" if "a < ?n" "b < ?n" for a b
    by (rule nth_update2[OF d(1) u te that])
  note old = sound_D[OF d(2) u te]
  have wk: "walk g u (weight e) (to e)" by (rule walk_edge[OF u e])
  have snd: "sound ?n (walk g) ?M" unfolding sound_def
  proof (intro allI impI)
    fix a b assume ab: "a < ?n" "b < ?n"
    show "0 \<le> ?M ! a ! b \<and> ?M ! a ! b \<le> INFTY \<and> (?M ! a ! b < INFTY \<longrightarrow> walk g a (?M ! a ! b) b)"
    proof (cases "a = u \<and> b = to e")
      case True
      then show ?thesis using nth[OF ab] old we wk by (auto simp: min_def)
    next
      case False
      then have "?M ! a ! b = M ! a ! b" using nth[OF ab] by auto
      then show ?thesis using sound_D[OF d(2) ab] by simp
    qed
  qed
  have diag: "?M ! i ! i = 0" if "i < ?n" for i
    using nth[OF that that] d(3)[OF that] we by (auto simp: min_def)
  have proc: "a < ?n \<and> to e' < ?n \<and> ?M ! a ! to e' \<le> weight e'" if "(a, e') \<in> insert (u, e) E" for a e'
  proof (cases "(a, e') = (u, e)")
    case True
    then show ?thesis using nth[OF u te] u te by simp
  next
    case False
    with that have "(a, e') \<in> E" by auto
    from d(4)[OF this] have r: "a < ?n" "to e' < ?n" "M ! a ! to e' \<le> weight e'" by simp_all
    have "?M ! a ! to e' \<le> M ! a ! to e'"
    proof (cases "a = u \<and> to e' = to e")
      case True
      then show ?thesis using nth[OF r(1,2)] by simp
    next
      case False
      then have "?M ! a ! to e' = M ! a ! to e'" using nth[OF r(1,2)] by auto
      then show ?thesis by simp
    qed
    with r show ?thesis by simp
  qed
  have "edge_inv g (insert (u, e) E) ?M"
    unfolding edge_inv_def using square_update[OF d(1) u] snd diag proc by blast
  with run show ?thesis by (intro exI[of _ ?M] conjI)
qed

lemma set_edge_row:
  assumes wf: "wf_graph g" and st: "stored g" and nn: "weights_in g 0 hi"
    and inv: "edge_inv g E M" and u: "u < length g"
  shows "\<exists>M'. for_each (g ! u) set_edge M = Inr M' \<and> edge_inv g (E \<union> {u} \<times> set (g ! u)) M'"
proof -
  define I where "I ys M' = edge_inv g (E \<union> {u} \<times> set ys) M'" for ys M'
  have init: "I [] M" unfolding I_def using inv by simp
  have step: "\<exists>t'. set_edge e t = Inr t' \<and> I (ys @ [e]) t'"
    if split: "g ! u = ys @ e # zs" and t: "I ys t" for ys e zs t
  proof -
    have e: "e \<in> set (g ! u)" unfolding split by simp
    have f1: "efrom e = u" using st u e unfolding stored_def by blast
    have f2: "to e < length g" by (rule wf_graph_D[OF wf u e])
    have f3: "0 \<le> weight e" using weights_in_D[OF nn u e] by simp
    have "\<exists>M'. set_edge e t = Inr M' \<and> edge_inv g (insert (u, e) (E \<union> {u} \<times> set ys)) M'"
      by (rule set_edge_step[OF t[unfolded I_def] u e f1 f2 f3])
    then obtain M' where r: "set_edge e t = Inr M'"
      and i: "edge_inv g (insert (u, e) (E \<union> {u} \<times> set ys)) M'" by blast
    have "insert (u, e) (E \<union> {u} \<times> set ys) = E \<union> {u} \<times> set (ys @ [e])" by auto
    with i have "I (ys @ [e]) M'" unfolding I_def by (simp only:)
    with r show ?thesis by (intro exI[of _ M'] conjI)
  qed
  have "\<exists>M'. for_each (g ! u) set_edge M = Inr M' \<and> I (g ! u) M'"
    by (rule for_each_total[of I M "g ! u" set_edge, OF init]) (rule step)
  then show ?thesis unfolding I_def by blast
qed

lemma WarshallFloyd_init_ok:
  assumes wf: "wf_graph g" and st: "stored g" and nn: "weights_in g 0 hi"
  shows "\<exists>M. WarshallFloyd_init g = Inr M \<and> square (length g) M \<and> sound (length g) (walk g) M \<and>
      covers (step0 g) {} ({..<length g} \<times> {..<length g}) M"
proof -
  let ?n = "length g"
  from set_diag_loop[of ?n]
  obtain D where r1: "for_each [0..<?n] set_diag (replicate ?n (replicate ?n INFTY)) = Inr D"
    and sqD: "square ?n D" and valD: "\<forall>i < ?n. \<forall>j < ?n. D ! i ! j = (if i = j then 0 else INFTY)"
    by blast
  define I where "I ys M = edge_inv g {(u, e). u \<in> set ys \<and> e \<in> set (g ! u)} M" for ys M
  have sndD: "sound ?n (walk g) D" unfolding sound_def
  proof (intro allI impI)
    fix i j assume ij: "i < ?n" "j < ?n"
    with valD have "D ! i ! j = (if i = j then 0 else INFTY)" by blast
    then show "0 \<le> D ! i ! j \<and> D ! i ! j \<le> INFTY \<and> (D ! i ! j < INFTY \<longrightarrow> walk g i (D ! i ! j) j)"
      using ij INFTY_pos by (auto intro: walk_refl)
  qed
  have init: "I [] D" unfolding I_def edge_inv_def using sqD sndD valD by simp
  have step: "\<exists>t'. for_each (g ! u) set_edge t = Inr t' \<and> I (ys @ [u]) t'"
    if split: "[0..<?n] = ys @ u # zs" and t: "I ys t" for ys u zs t
  proof -
    have u: "u < ?n" by (rule upt_split_lt[OF split])
    from set_edge_row[OF wf st nn t[unfolded I_def] u]
    obtain M' where r: "for_each (g ! u) set_edge t = Inr M'"
      and i: "edge_inv g ({(u, e). u \<in> set ys \<and> e \<in> set (g ! u)} \<union> {u} \<times> set (g ! u)) M'" by blast
    have "{(u, e). u \<in> set ys \<and> e \<in> set (g ! u)} \<union> {u} \<times> set (g ! u)
        = {(v, e). v \<in> set (ys @ [u]) \<and> e \<in> set (g ! v)}" by auto
    with i have "I (ys @ [u]) M'" unfolding I_def by (simp only:)
    with r show ?thesis by (intro exI[of _ M'] conjI)
  qed
  have "\<exists>M. for_each [0..<?n] (\<lambda>i. for_each (g ! i) set_edge) D = Inr M \<and> I [0..<?n] M"
    by (rule for_each_total[of I D "[0..<?n]" "\<lambda>i. for_each (g ! i) set_edge", OF init]) (rule step)
  then obtain M where r2: "for_each [0..<?n] (\<lambda>i. for_each (g ! i) set_edge) D = Inr M"
    and i: "edge_inv g {(u, e). u \<in> set [0..<?n] \<and> e \<in> set (g ! u)} M" unfolding I_def by blast
  note d = edge_invD[OF i]
  have cov: "covers (step0 g) {} ({..<?n} \<times> {..<?n}) M"
  proof (rule coversI)
    fix a b w assume "(a, b) \<in> {..<?n} \<times> {..<?n}" and p: "paths (step0 g) {} a w b"
    then have ab: "a < ?n" "b < ?n" by simp_all
    from paths_empty[OF p] have s: "step0 g a w b" .
    then consider "a = b" "w = 0" | e where "e \<in> set (g ! a)" "w = weight e" "b = to e"
      unfolding step0_def by blast
    then show "M ! a ! b \<le> w"
    proof cases
      case 1
      with d(3)[of a] ab show ?thesis by simp
    next
      case 2
      with ab have "(a, e) \<in> {(u, e). u \<in> set [0..<?n] \<and> e \<in> set (g ! u)}" by simp
      from d(4)[OF this] 2 show ?thesis by simp
    qed
  qed
  have "WarshallFloyd_init g = Inr M" using r1 r2 by (simp add: WarshallFloyd_init_def Let_def)
  with d(1,2) cov show ?thesis by (intro exI[of _ M] conjI)
qed

lemma WarshallFloyd_distances:
  assumes wf: "wf_graph g" and st: "stored g" and nn: "weights_in g 0 hi"
  shows "\<exists>M. WarshallFloyd g = Inr M \<and> distances g M"
proof -
  let ?n = "length g"
  from WarshallFloyd_init_ok[OF assms]
  obtain M0 where r0: "WarshallFloyd_init g = Inr M0" and sq0: "square ?n M0"
    and snd0: "sound ?n (walk g) M0" and c0: "covers (step0 g) {} ({..<?n} \<times> {..<?n}) M0" by blast
  have "\<exists>M'. for_each [0..<?n] (relax_all ?n) M0 = Inr M' \<and> square ?n M' \<and> sound ?n (walk g) M' \<and>
      below ?n M' M0 \<and> covers (step0 g) (set [0..<?n]) ({..<?n} \<times> {..<?n}) M'"
  proof (rule relax_stages[OF _ _ _ sq0 snd0 c0])
    show "\<forall>k \<in> set [0..<?n]. k < ?n" by simp
  next
    fix i w1 k w2 j assume "walk g i w1 k" "walk g k w2 j"
    then show "walk g i (w1 + w2) j" by (rule walk_trans)
  next
    fix i w j assume "step0 g i w j"
    with nn show "0 \<le> w" by (rule step0_nonneg)
  qed
  then obtain M where r: "for_each [0..<?n] (relax_all ?n) M0 = Inr M" and sq: "square ?n M"
    and snd: "sound ?n (walk g) M" and c: "covers (step0 g) (set [0..<?n]) ({..<?n} \<times> {..<?n}) M"
    by blast
  have run: "WarshallFloyd g = Inr M" using r0 r by (simp add: WarshallFloyd_def)
  have "M ! i ! j \<le> w" if "i < ?n" "j < ?n" "walk g i w j" for i j w
  proof -
    have "set [0..<?n] = {..<?n}" by auto
    then have "paths (step0 g) (set [0..<?n]) i w j" using walk_paths[OF wf that(3)] by (simp only:)
    from covers_D[OF c _ this] that show ?thesis by simp
  qed
  with sq snd have "distances g M" unfolding distances_def by blast
  with run show ?thesis by blast
qed

section \<open>The calls on the structures of the caller: lemmas\<close>

lemma leaves_simps [simp]: "leaves r (Inl err) = Inl err" "leaves r (Inr l) = Inr (r, l)"
  by (simp_all add: leaves_def)











lemma leaves_flag_simps [simp]:
  "leaves_flag r (Inl err) = Inl err" "leaves_flag r (Inr (b, l)) = Inr (b, r, l)"
  by (simp_all add: leaves_flag_def)













section \<open>C1: Dijkstra\<close>

lemma que_top_in: "que_top p ps \<in> set (p # ps)"
  by (induction ps arbitrary: p) auto

lemma Dijkstra_inv_length: "Dijkstra_inv g s X dist que \<Longrightarrow> length dist = length g"
  unfolding Dijkstra_inv_def by blast

lemma Dijkstra_inv_source: "Dijkstra_inv g s X dist que \<Longrightarrow> dist ! s = 0"
  unfolding Dijkstra_inv_def by blast

lemma Dijkstra_inv_range: "Dijkstra_inv g s X dist que \<Longrightarrow> v < length g \<Longrightarrow> 0 \<le> dist ! v \<and> dist ! v \<le> INFTY"
  unfolding Dijkstra_inv_def by blast

lemma Dijkstra_inv_walk: "Dijkstra_inv g s X dist que \<Longrightarrow> v < length g \<Longrightarrow> dist ! v < INFTY \<Longrightarrow> walk g s (dist ! v) v"
  unfolding Dijkstra_inv_def by blast

lemma Dijkstra_inv_que:
  "Dijkstra_inv g s X dist que \<Longrightarrow> (w, v) \<in> set que \<Longrightarrow> v < length g \<and> dist ! v \<le> w \<and> walk g s w v"
  unfolding Dijkstra_inv_def by fastforce

lemma Dijkstra_inv_relaxed:
  "Dijkstra_inv g s X dist que \<Longrightarrow> u < length g \<Longrightarrow> u \<notin> X \<Longrightarrow> dist ! u < INFTY \<Longrightarrow>
     (dist ! u, u) \<notin> set que \<Longrightarrow> relaxed g dist u"
  unfolding Dijkstra_inv_def by blast

lemma Dijkstra_invI:
  assumes "length dist = length g" "dist ! s = 0"
    "\<And>v. v < length g \<Longrightarrow> 0 \<le> dist ! v \<and> dist ! v \<le> INFTY"
    "\<And>v. v < length g \<Longrightarrow> dist ! v < INFTY \<Longrightarrow> walk g s (dist ! v) v"
    "\<And>w v. (w, v) \<in> set que \<Longrightarrow> v < length g \<and> dist ! v \<le> w \<and> walk g s w v"
    "\<And>u. u < length g \<Longrightarrow> u \<notin> X \<Longrightarrow> dist ! u < INFTY \<Longrightarrow> (dist ! u, u) \<notin> set que \<Longrightarrow> relaxed g dist u"
  shows "Dijkstra_inv g s X dist que"
  unfolding Dijkstra_inv_def
proof (intro conjI allI impI ballI)
  fix p assume "p \<in> set que"
  then have "(fst p, snd p) \<in> set que" by simp
  from assms(5)[OF this] show "snd p < length g" "dist ! snd p \<le> fst p" "walk g s (fst p) (snd p)"
    by simp_all
qed (use assms in blast)+


lemma relaxed_mono:
  assumes r: "relaxed g dist u" and wf: "wf_graph g" and u: "u < length g"
    and le: "\<And>v. v < length g \<Longrightarrow> dist' ! v \<le> dist ! v" and eq: "dist' ! u = dist ! u"
  shows "relaxed g dist' u"
  unfolding relaxed_def
proof
  fix e assume e: "e \<in> set (g ! u)"
  have "dist' ! to e \<le> dist ! to e" by (rule le[OF wf_graph_D[OF wf u e]])
  also have "\<dots> \<le> dist ! u + weight e" using r e unfolding relaxed_def by blast
  finally show "dist' ! to e \<le> dist' ! u + weight e" using eq by simp
qed

lemma Dijkstra_inv_update:
  assumes wf: "wf_graph g" and nn: "weights_in g 0 (T_max - INFTY)" and idx: "idx < length g"
    and inv: "Dijkstra_inv g s {idx} dist que" and w: "dist ! idx = w" and wk: "walk g s w idx"
    and e: "e \<in> set (g ! idx)" and lt: "w + weight e < dist ! to e"
  shows "Dijkstra_inv g s {idx} (dist[to e := w + weight e]) ((w + weight e, to e) # que) \<and>
         dist[to e := w + weight e] ! idx = w \<and>
         (\<forall>v < length g. dist[to e := w + weight e] ! v \<le> dist ! v)"
proof -
  let ?nw = "w + weight e"
  let ?d = "dist[to e := ?nw]"
  have len: "length dist = length g" by (rule Dijkstra_inv_length[OF inv])
  have te: "to e < length g" by (rule wf_graph_D[OF wf idx e])
  have we: "0 \<le> weight e" using weights_in_D[OF nn idx e] by simp
  have w0: "0 \<le> w" using Dijkstra_inv_range[OF inv idx] w by simp
  have le: "?d ! v \<le> dist ! v" if "v < length g" for v
    using lt len that by (cases "v = to e") simp_all
  have ne_idx: "to e \<noteq> idx" using lt w we by auto
  have ne_s: "to e \<noteq> s" using lt Dijkstra_inv_source[OF inv] we w0 by auto
  have inv': "Dijkstra_inv g s {idx} ?d ((?nw, to e) # que)"
  proof (rule Dijkstra_invI)
    show "length ?d = length g" using len by simp
    show "?d ! s = 0" using ne_s Dijkstra_inv_source[OF inv] by simp
  next
    fix v assume v: "v < length g"
    show "0 \<le> ?d ! v \<and> ?d ! v \<le> INFTY"
    proof (cases "v = to e")
      case True
      with lt Dijkstra_inv_range[OF inv te] w0 we len te show ?thesis by simp
    next
      case False
      with Dijkstra_inv_range[OF inv v] show ?thesis by simp
    qed
  next
    fix v assume v: "v < length g" "?d ! v < INFTY"
    show "walk g s (?d ! v) v"
    proof (cases "v = to e")
      case True
      with walk_step[OF wk e] len te show ?thesis by simp
    next
      case False
      with Dijkstra_inv_walk[OF inv v(1)] v(2) show ?thesis by simp
    qed
  next
    fix w' v assume "(w', v) \<in> set ((?nw, to e) # que)"
    then consider "w' = ?nw" "v = to e" | "(w', v) \<in> set que" by auto
    then show "v < length g \<and> ?d ! v \<le> w' \<and> walk g s w' v"
    proof cases
      case 1
      with walk_step[OF wk e] len te show ?thesis by simp
    next
      case 2
      from Dijkstra_inv_que[OF inv 2] have q: "v < length g" "dist ! v \<le> w'" "walk g s w' v"
        by simp_all
      from le[OF q(1)] q show ?thesis by simp
    qed
  next
    fix u assume u: "u < length g" "u \<notin> {idx}" "?d ! u < INFTY" "(?d ! u, u) \<notin> set ((?nw, to e) # que)"
    have ne: "u \<noteq> to e"
    proof
      assume "u = to e"
      with u(4) len te show False by simp
    qed
    then have eq: "?d ! u = dist ! u" by simp
    with u have "relaxed g dist u" by (intro Dijkstra_inv_relaxed[OF inv]) simp_all
    then show "relaxed g ?d u" by (rule relaxed_mono[OF _ wf u(1) le eq])
  qed
  moreover have "?d ! idx = w" using ne_idx w by simp
  ultimately show ?thesis using le by blast
qed

lemma Dijkstra_edges_ok:
  assumes wf: "wf_graph g" and nn: "weights_in g 0 (T_max - INFTY)" and idx: "idx < length g"
    and wk: "walk g s w idx"
    and inv: "Dijkstra_inv g s {idx} dist que" and w: "dist ! idx = w" and es: "set es \<subseteq> set (g ! idx)"
  shows "\<exists>dist' que'. Dijkstra_edges w es (dist, que) = Inr (dist', que') \<and>
      Dijkstra_inv g s {idx} dist' que' \<and> dist' ! idx = w \<and>
      (\<forall>v < length g. dist' ! v \<le> dist ! v) \<and> (\<forall>e \<in> set es. dist' ! to e \<le> w + weight e)"
  using inv w es
proof (induction es arbitrary: dist que)
  case Nil
  then show ?case by simp
next
  case (Cons e es)
  note inv = Cons.prems(1) and w = Cons.prems(2)
  from Cons.prems(3) have e: "e \<in> set (g ! idx)" and es: "set es \<subseteq> set (g ! idx)" by simp_all
  have len: "length dist = length g" by (rule Dijkstra_inv_length[OF inv])
  have te: "to e < length g" by (rule wf_graph_D[OF wf idx e])
  have we: "0 \<le> weight e" "weight e \<le> T_max - INFTY" using weights_in_D[OF nn idx e] by simp_all
  have wr: "0 \<le> w" "w \<le> INFTY" using Dijkstra_inv_range[OF inv idx] w by simp_all
  have add: "add_T w (weight e) = Inr (w + weight e)"
    using we wr by (simp add: add_T_def T_min_def)
  show ?case
  proof (cases "dist ! to e \<le> w + weight e")
    case True
    from Cons.IH[OF inv w es]
    obtain d' q' where r: "Dijkstra_edges w es (dist, que) = Inr (d', q')"
      and i': "Dijkstra_inv g s {idx} d' q'" and w': "d' ! idx = w"
      and le: "\<forall>v < length g. d' ! v \<le> dist ! v" and rel: "\<forall>e \<in> set es. d' ! to e \<le> w + weight e"
      by blast
    have run: "Dijkstra_edges w (e # es) (dist, que) = Inr (d', q')"
      using r add True te len by simp
    from le te True have "d' ! to e \<le> w + weight e" by fastforce
    with rel have "\<forall>e' \<in> set (e # es). d' ! to e' \<le> w + weight e'" by simp
    with run i' w' le show ?thesis by blast
  next
    case False
    then have lt: "w + weight e < dist ! to e" by simp
    let ?d = "dist[to e := w + weight e]"
    let ?q = "(w + weight e, to e) # que"
    from Dijkstra_inv_update[OF wf nn idx inv w wk e lt]
    have i1: "Dijkstra_inv g s {idx} ?d ?q" and w1: "?d ! idx = w"
      and le1: "\<forall>v < length g. ?d ! v \<le> dist ! v" by simp_all
    from Cons.IH[OF i1 w1 es]
    obtain d' q' where r: "Dijkstra_edges w es (?d, ?q) = Inr (d', q')"
      and i': "Dijkstra_inv g s {idx} d' q'" and w': "d' ! idx = w"
      and le: "\<forall>v < length g. d' ! v \<le> ?d ! v" and rel: "\<forall>e \<in> set es. d' ! to e \<le> w + weight e"
      by blast
    have run: "Dijkstra_edges w (e # es) (dist, que) = Inr (d', q')"
      using r add False te len by simp
    have le': "\<forall>v < length g. d' ! v \<le> dist ! v"
    proof (intro allI impI)
      fix v assume v: "v < length g"
      from le v have "d' ! v \<le> ?d ! v" by blast
      also from le1 v have "\<dots> \<le> dist ! v" by blast
      finally show "d' ! v \<le> dist ! v" .
    qed
    from le te have "d' ! to e \<le> ?d ! to e" by blast
    then have "d' ! to e \<le> w + weight e" using te len by simp
    with rel have "\<forall>e' \<in> set (e # es). d' ! to e' \<le> w + weight e'" by simp
    with run i' w' le' show ?thesis by blast
  qed
qed


lemma Dijkstra_inv_remove:
  assumes inv: "Dijkstra_inv g s {} dist que" and top: "(w, idx) \<in> set que"
    and X: "dist ! idx < w \<and> X = {} \<or> X = {idx}"
  shows "Dijkstra_inv g s X dist (remove1 (w, idx) que)"
proof (rule Dijkstra_invI)
  show "length dist = length g" by (rule Dijkstra_inv_length[OF inv])
  show "dist ! s = 0" by (rule Dijkstra_inv_source[OF inv])
next
  fix v assume "v < length g"
  then show "0 \<le> dist ! v \<and> dist ! v \<le> INFTY" by (rule Dijkstra_inv_range[OF inv])
next
  fix v assume "v < length g" "dist ! v < INFTY"
  then show "walk g s (dist ! v) v" by (rule Dijkstra_inv_walk[OF inv])
next
  fix w' v assume "(w', v) \<in> set (remove1 (w, idx) que)"
  then have "(w', v) \<in> set que" using set_remove1_subset by fastforce
  then show "v < length g \<and> dist ! v \<le> w' \<and> walk g s w' v" by (rule Dijkstra_inv_que[OF inv])
next
  fix u assume u: "u < length g" "u \<notin> X" "dist ! u < INFTY" "(dist ! u, u) \<notin> set (remove1 (w, idx) que)"
  have "(dist ! u, u) \<noteq> (w, idx)" using X u(2) by auto
  with u(4) have "(dist ! u, u) \<notin> set que" by simp
  with u show "relaxed g dist u" by (intro Dijkstra_inv_relaxed[OF inv]) simp_all
qed

lemma Dijkstra_inv_settle:
  assumes i': "Dijkstra_inv g s {idx} d' q'" and w': "d' ! idx = w"
    and rel: "\<forall>e \<in> set (g ! idx). d' ! to e \<le> w + weight e"
  shows "Dijkstra_inv g s {} d' q'"
proof (rule Dijkstra_invI)
  show "length d' = length g" by (rule Dijkstra_inv_length[OF i'])
  show "d' ! s = 0" by (rule Dijkstra_inv_source[OF i'])
next
  fix v assume "v < length g"
  then show "0 \<le> d' ! v \<and> d' ! v \<le> INFTY" by (rule Dijkstra_inv_range[OF i'])
next
  fix v assume "v < length g" "d' ! v < INFTY"
  then show "walk g s (d' ! v) v" by (rule Dijkstra_inv_walk[OF i'])
next
  fix w' v assume "(w', v) \<in> set q'"
  then show "v < length g \<and> d' ! v \<le> w' \<and> walk g s w' v" by (rule Dijkstra_inv_que[OF i'])
next
  fix u assume u: "u < length g" "u \<notin> {}" "d' ! u < INFTY" "(d' ! u, u) \<notin> set q'"
  show "relaxed g d' u"
  proof (cases "u = idx")
    case True
    with rel w' show ?thesis unfolding relaxed_def by simp
  next
    case False
    with u show ?thesis by (intro Dijkstra_inv_relaxed[OF i']) simp_all
  qed
qed

lemma Dijkstra_loop_ok:
  assumes wf: "wf_graph g" and nn: "weights_in g 0 (T_max - INFTY)"
    and inv: "Dijkstra_inv g s {} dist que"
  shows "\<exists>dist'. Dijkstra_loop g dist que = Inr dist' \<and> Dijkstra_inv g s {} dist' []"
  using assms
proof (induction g dist que rule: Dijkstra_loop.induct)
  case (1 g dist que)
  note wf = "1.prems"(1) and nn = "1.prems"(2) and inv = "1.prems"(3)
  have len: "length dist = length g" by (rule Dijkstra_inv_length[OF inv])
  show ?case
  proof (cases que)
    case Nil
    with inv show ?thesis by (subst Dijkstra_loop.simps) simp
  next
    case (Cons p ps)
    let ?top = "que_top p ps"
    have top_in: "(fst ?top, snd ?top) \<in> set que" unfolding Cons using que_top_in[of p ps] by simp
    from Dijkstra_inv_que[OF inv top_in]
    have idx: "snd ?top < length g" and dw: "dist ! snd ?top \<le> fst ?top"
      and wk: "walk g s (fst ?top) (snd ?top)" by simp_all
    have nrng: "\<not> length dist \<le> snd ?top" using idx len by simp
    show ?thesis
    proof (cases "dist ! snd ?top < fst ?top")
      case True
      have inv1: "Dijkstra_inv g s {} dist (remove1 ?top que)"
        using Dijkstra_inv_remove[OF inv top_in, of "{}"] True by simp
      have "\<exists>dist'. Dijkstra_loop g dist (remove1 ?top que) = Inr dist' \<and> Dijkstra_inv g s {} dist' []"
        by (rule "1.IH"(1)[OF Cons nrng True wf nn inv1])
      moreover have "Dijkstra_loop g dist que = Dijkstra_loop g dist (remove1 ?top que)"
        using True nrng Cons by (subst Dijkstra_loop.simps) simp
      ultimately show ?thesis by simp
    next
      case False
      with dw have weq: "dist ! snd ?top = fst ?top" by simp
      have ng: "\<not> length g \<le> snd ?top" using idx by simp
      have inv1: "Dijkstra_inv g s {snd ?top} dist (remove1 ?top que)"
        using Dijkstra_inv_remove[OF inv top_in, of "{snd ?top}"] by simp
      from Dijkstra_edges_ok[OF wf nn idx wk inv1 weq subset_refl]
      obtain d' q' where r: "Dijkstra_edges (fst ?top) (g ! snd ?top) (dist, remove1 ?top que) = Inr (d', q')"
        and i': "Dijkstra_inv g s {snd ?top} d' q'" and w': "d' ! snd ?top = fst ?top"
        and rel: "\<forall>e \<in> set (g ! snd ?top). d' ! to e \<le> fst ?top + weight e" by blast
      have inv2: "Dijkstra_inv g s {} d' q'" by (rule Dijkstra_inv_settle[OF i' w' rel])
      have "\<exists>dist'. Dijkstra_loop g d' q' = Inr dist' \<and> Dijkstra_inv g s {} dist' []"
        by (rule "1.IH"(2)[OF Cons nrng False ng r refl wf nn inv2])
      moreover have "Dijkstra_loop g dist que = Dijkstra_loop g d' q'"
        using False nrng ng Cons r by (subst Dijkstra_loop.simps) simp
      ultimately show ?thesis by simp
    qed
  qed
qed

lemma Dijkstra_inv_init:
  assumes "s < length g"
  shows "Dijkstra_inv g s {} ((replicate (length g) INFTY)[s := 0]) [(0, s)]"
proof (rule Dijkstra_invI)
  let ?d = "(replicate (length g) INFTY)[s := 0]"
  show "length ?d = length g" by simp
  show "?d ! s = 0" using assms by simp
  fix v assume v: "v < length g"
  show "0 \<le> ?d ! v \<and> ?d ! v \<le> INFTY" using v assms by (cases "v = s") (simp_all add: INFTY_val)
  assume "?d ! v < INFTY"
  with v have "v = s" by (cases "v = s") simp_all
  with assms show "walk g s (?d ! v) v" by (simp add: walk_refl)
next
  fix w :: int and v assume "(w, v) \<in> set [(0, s)]"
  with assms show "v < length g \<and> (replicate (length g) INFTY)[s := 0] ! v \<le> w \<and> walk g s w v"
    by (simp add: walk_refl)
next
  fix u assume u: "u < length g" "(replicate (length g) INFTY)[s := 0] ! u < INFTY"
    "((replicate (length g) INFTY)[s := 0] ! u, u) \<notin> set [(0, s)]"
  from u(1,2) have "u = s" by (cases "u = s") simp_all
  with u(3) assms show "relaxed g ((replicate (length g) INFTY)[s := 0]) u" by simp
qed

lemma relaxed_walk_bound:
  assumes nn: "weights_in g 0 hi" and wf: "wf_graph g" and s: "s < length g"
    and inv: "Dijkstra_inv g s {} dist []" and wk: "walk g s w v"
  shows "v < length g \<and> dist ! v \<le> w"
  using wk
proof (induction rule: walk.induct)
  case walk_refl
  with Dijkstra_inv_source[OF inv] show ?case by simp
next
  case (walk_step w v e)
  then have v: "v < length g" and le: "dist ! v \<le> w" by simp_all
  have te: "to e < length g" by (rule wf_graph_D[OF wf v walk_step.hyps(2)])
  have we: "0 \<le> weight e" using weights_in_D[OF nn v walk_step.hyps(2)] by simp
  show ?case
  proof (cases "dist ! v < INFTY")
    case True
    have "relaxed g dist v" by (rule Dijkstra_inv_relaxed[OF inv v _ True]) simp_all
    with walk_step.hyps(2) have "dist ! to e \<le> dist ! v + weight e" unfolding relaxed_def by blast
    with le te show ?thesis by simp
  next
    case False
    with le have "INFTY \<le> w" by simp
    with Dijkstra_inv_range[OF inv te] we te show ?thesis by simp
  qed
qed

text \<open>C1, as amended. On a graph whose edges end at vertices of the graph and whose weights lie
  between \<open>0\<close> and \<open>T_max - INF\<close>, from a source vertex of the graph, \<open>Dijkstra\<close> returns a list of
  the length of the graph with \<open>0\<close> at the source. The entry of a vertex is the least total
  weight of a walk from the source to it when that weight is below \<open>INF\<close>; it is \<open>INF\<close>
  otherwise, when no walk leads to the vertex or every walk to it weighs \<open>INF\<close> or more.\<close>

theorem Dijkstra_shortest:
  assumes "wf_graph g" "weights_in g 0 (T_max - INFTY)" "s < length g"
  shows "\<exists>dist. Dijkstra g s = Inr dist \<and> length dist = length g \<and> dist ! s = 0 \<and>
      (\<forall>v < length g. if dist ! v < INFTY then shortest g s v (dist ! v)
                       else dist ! v = INFTY \<and> (\<forall>w. walk g s w v \<longrightarrow> INFTY \<le> w))"
proof -
  let ?d0 = "(replicate (length g) INFTY)[s := 0]"
  from Dijkstra_loop_ok[OF assms(1,2) Dijkstra_inv_init[OF assms(3)]]
  obtain dist where r: "Dijkstra_loop g ?d0 [(0, s)] = Inr dist" and inv: "Dijkstra_inv g s {} dist []"
    by blast
  have run: "Dijkstra g s = Inr dist" using r assms(3) by (simp add: Dijkstra_def Let_def)
  have bound: "dist ! v \<le> w" if "walk g s w v" for w v
    using relaxed_walk_bound[OF assms(2,1,3) inv that] by simp
  have each: "if dist ! v < INFTY then shortest g s v (dist ! v)
              else dist ! v = INFTY \<and> (\<forall>w. walk g s w v \<longrightarrow> INFTY \<le> w)" if v: "v < length g" for v
  proof (cases "dist ! v < INFTY")
    case True
    from Dijkstra_inv_walk[OF inv v True] bound have "shortest g s v (dist ! v)"
      unfolding shortest_def by blast
    with True show ?thesis by simp
  next
    case False
    with Dijkstra_inv_range[OF inv v] have eq: "dist ! v = INFTY" by simp
    with bound have "\<forall>w. walk g s w v \<longrightarrow> INFTY \<le> w" by metis
    with False eq show ?thesis by simp
  qed
  from run Dijkstra_inv_length[OF inv] Dijkstra_inv_source[OF inv] each show ?thesis by blast
qed


text \<open>The theorem on the example of the spec: the undirected edges \<open>(0, 1, 4)\<close>, \<open>(1, 2, 1)\<close>,
  \<open>(0, 2, 7)\<close> and the source \<open>0\<close>.\<close>

theorem Dijkstra_shortest_witness:
  "wf_graph [[Edge 0 1 4, Edge 0 2 7], [Edge 1 0 4, Edge 1 2 1], [Edge 2 1 1, Edge 2 0 7]] \<and>
   weights_in [[Edge 0 1 4, Edge 0 2 7], [Edge 1 0 4, Edge 1 2 1], [Edge 2 1 1, Edge 2 0 7]] 0 (T_max - INFTY) \<and>
   Dijkstra [[Edge 0 1 4, Edge 0 2 7], [Edge 1 0 4, Edge 1 2 1], [Edge 2 1 1, Edge 2 0 7]] 0 = Inr [0, 4, 5] \<and>
   shortest [[Edge 0 1 4, Edge 0 2 7], [Edge 1 0 4, Edge 1 2 1], [Edge 2 1 1, Edge 2 0 7]] 0 1 4 \<and>
   shortest [[Edge 0 1 4, Edge 0 2 7], [Edge 1 0 4, Edge 1 2 1], [Edge 2 1 1, Edge 2 0 7]] 0 2 5"
proof -
  let ?g = "[[Edge 0 1 4, Edge 0 2 7], [Edge 1 0 4, Edge 1 2 1], [Edge 2 1 1, Edge 2 0 7]]"
  have wf: "wf_graph ?g" by (simp add: wf_graph_def)
  have nn: "weights_in ?g 0 (T_max - INFTY)" by (simp add: weights_in_def T_max_def INFTY_def)
  have run: "Dijkstra ?g 0 = Inr [0, 4, 5]" by code_simp
  from Dijkstra_shortest[OF wf nn, of 0] run
  have all: "\<forall>v < length ?g. if [0, 4, 5 :: int] ! v < INFTY then shortest ?g 0 v ([0, 4, 5] ! v)
      else [0, 4, 5 :: int] ! v = INFTY \<and> (\<forall>w. walk ?g 0 w v \<longrightarrow> INFTY \<le> w)" by simp
  from all[rule_format, of 1] have s1: "shortest ?g 0 1 4" by (simp add: INFTY_val)
  from all[rule_format, of 2] have s2: "shortest ?g 0 2 5" by (simp add: INFTY_val)
  from wf nn run s1 s2 show ?thesis by blast
qed

text \<open>C1 as stated fails on a weight above \<open>INF\<close>: vertex \<open>1\<close> is reached by the one edge of
  weight \<open>300000000\<close>, which is the least weight of a walk to it, and its entry is \<open>INF\<close>.\<close>

theorem Dijkstra_sentinel_counterexample:
  "Dijkstra [[Edge 0 1 300000000], []] 0 = Inr [0, INFTY] \<and>
   shortest [[Edge 0 1 300000000], []] 0 1 300000000 \<and> INFTY \<noteq> 300000000"
proof -
  let ?g = "[[Edge 0 1 300000000], []]"
  have run: "Dijkstra ?g 0 = Inr [0, INFTY]" by code_simp
  have w0: "walk ?g 0 0 0" by (rule walk_refl) simp
  have w1: "walk ?g 0 300000000 1" using walk_step[OF w0, of "Edge 0 1 300000000"] by simp
  have only: "(v = 0 \<and> w = 0) \<or> (v = 1 \<and> w = 300000000)" if "walk ?g 0 w v" for w v
    using that
  proof (induction rule: walk.induct)
    case walk_refl
    then show ?case by simp
  next
    case (walk_step w v e)
    then show ?case by auto
  qed
  have "shortest ?g 0 1 300000000" unfolding shortest_def using w1 only by auto
  with run show ?thesis by (simp add: INFTY_val)
qed

section \<open>C4 and C10: the bipartite check\<close>

lemma dfs_post_white:
  assumes "dfs_post g clr (color, ret) (color', ret')"
  shows "white color' \<subseteq> white color"
proof
  fix v assume "v \<in> white color'"
  then have v: "v < length color'" "color' ! v = 0" by (auto simp: white_def)
  from assms have len: "length color' = length color" by (simp add: dfs_post_def)
  from assms v len have "color ! v = 0" by (auto simp: dfs_post_def)
  with v len show "v \<in> white color" by (simp add: white_def)
qed

lemma dfs_post_length: "dfs_post g clr (c, r) (c', r') \<Longrightarrow> length c' = length c"
  by (simp add: dfs_post_def)

lemma dfs_post_frame:
  "dfs_post g clr (c, r) (c', r') \<Longrightarrow> v < length c \<Longrightarrow> c ! v \<noteq> 0 \<Longrightarrow> c' ! v = c ! v"
  by (simp add: dfs_post_def)

lemma dfs_post_mono: "dfs_post g clr (c, r) (c', r') \<Longrightarrow> r' \<Longrightarrow> r"
  by (simp add: dfs_post_def)

lemma dfs_post_new:
  "dfs_post g clr (c, r) (c', r') \<Longrightarrow> v < length c \<Longrightarrow> c ! v = 0 \<Longrightarrow> c' ! v \<noteq> 0 \<Longrightarrow>
     c' ! v = clr \<or> c' ! v = - clr"
  by (simp add: dfs_post_def)

lemma dfs_post_refl: "dfs_post g clr st st"
  by (simp add: dfs_post_def)

lemma dfs_post_ret: "dfs_post g clr (color, ret) (color', ret') \<Longrightarrow> dfs_post g clr (color, ret) (color', False)"
  by (simp add: dfs_post_def)

lemma dfs_post_neg: "dfs_post g (- clr) st st' \<longleftrightarrow> dfs_post g clr st st'"
  by (auto simp: dfs_post_def)

lemma dfs_post_trans:
  assumes a: "dfs_post g clr st st1" and b: "dfs_post g clr st1 st2"
    and wf: "wf_graph g" "length (fst st) = length g"
  shows "dfs_post g clr st st2"
proof -
  obtain c r where st: "st = (c, r)" by (cases st)
  obtain c1 r1 where st1: "st1 = (c1, r1)" by (cases st1)
  obtain c2 r2 where st2: "st2 = (c2, r2)" by (cases st2)
  have len1: "length c1 = length c" and len2: "length c2 = length c1"
    using a b by (simp_all add: dfs_post_def st st1 st2)
  have fr1: "\<And>v. v < length c \<Longrightarrow> c ! v \<noteq> 0 \<Longrightarrow> c1 ! v = c ! v"
    using a by (simp add: dfs_post_def st st1)
  have fr2: "\<And>v. v < length c \<Longrightarrow> c1 ! v \<noteq> 0 \<Longrightarrow> c2 ! v = c1 ! v"
    using b len1 by (simp add: dfs_post_def st1 st2)
  have r: "r2 \<longrightarrow> r1" "r1 \<longrightarrow> r" using a b by (simp_all add: dfs_post_def st st1 st2)
  have n1: "\<And>v e. v < length c \<Longrightarrow> c ! v = 0 \<Longrightarrow> c1 ! v \<noteq> 0 \<Longrightarrow>
        (c1 ! v = clr \<or> c1 ! v = - clr) \<and> (e \<in> set (g ! v) \<longrightarrow> c1 ! to e \<noteq> 0 \<and> (r1 \<longrightarrow> c1 ! to e = - (c1 ! v)))"
    using a by (simp add: dfs_post_def st st1)
  have n2: "\<And>v e. v < length c \<Longrightarrow> c1 ! v = 0 \<Longrightarrow> c2 ! v \<noteq> 0 \<Longrightarrow>
        (c2 ! v = clr \<or> c2 ! v = - clr) \<and> (e \<in> set (g ! v) \<longrightarrow> c2 ! to e \<noteq> 0 \<and> (r2 \<longrightarrow> c2 ! to e = - (c2 ! v)))"
    using b len1 by (simp add: dfs_post_def st1 st2)
  have rng: "\<And>v e. v < length c \<Longrightarrow> e \<in> set (g ! v) \<Longrightarrow> to e < length c"
    using wf by (auto simp: wf_graph_def st)
  have new: "(c2 ! v = clr \<or> c2 ! v = - clr) \<and>
        (\<forall>e \<in> set (g ! v). c2 ! to e \<noteq> 0 \<and> (r2 \<longrightarrow> c2 ! to e = - (c2 ! v)))"
    if v: "v < length c" "c ! v = 0" "c2 ! v \<noteq> 0" for v
  proof (cases "c1 ! v = 0")
    case True
    with n2[OF v(1) True v(3)] show ?thesis by blast
  next
    case False
    have eq: "c2 ! v = c1 ! v" using fr2[OF v(1) False] .
    show ?thesis
    proof (rule conjI, goal_cases)
      case 1
      show ?case using n1[OF v(1,2) False] eq by simp
    next
      case 2
      show ?case
      proof (rule ballI)
      fix e assume e: "e \<in> set (g ! v)"
      from n1[OF v(1,2) False, of e] e have e1: "c1 ! to e \<noteq> 0" "r1 \<longrightarrow> c1 ! to e = - (c1 ! v)" by simp_all
      have "c2 ! to e = c1 ! to e" using fr2[OF rng[OF v(1) e] e1(1)] .
      with e1 eq r show "c2 ! to e \<noteq> 0 \<and> (r2 \<longrightarrow> c2 ! to e = - (c2 ! v))" by simp
      qed
    qed
  qed
  have frame: "c2 ! v = c ! v" if "v < length c" "c ! v \<noteq> 0" for v
    using fr1[OF that] fr2[OF that(1)] that by simp
  show ?thesis
    unfolding dfs_post_def st st2 using len1 len2 frame r new by simp
qed


lemma dfs_pre_post:
  assumes "dfs_pre g n color" "dfs_post g clr (color, ret) (color', ret')" "clr = 1 \<or> clr = - 1"
  shows "dfs_pre g n color'"
proof -
  from assms(2) have len: "length color' = length color" by (simp add: dfs_post_def)
  have "card (white color') \<le> card (white color)"
    by (rule card_mono[OF finite_white dfs_post_white[OF assms(2)]])
  moreover have "color' ! v = 0 \<or> color' ! v = 1 \<or> color' ! v = - 1" if "v < length color" for v
  proof (cases "color ! v = 0")
    case True
    with assms(2,3) that show ?thesis by (auto simp: dfs_post_def)
  next
    case False
    with assms(2) that have "color' ! v = color ! v" by (simp add: dfs_post_def)
    with assms(1) that show ?thesis by (simp add: dfs_pre_def)
  qed
  ultimately show ?thesis using assms(1) len by (simp add: dfs_pre_def)
qed

lemma dfs_edges_ok:
  assumes IH: "\<And>i clr color ret. dfs_pre g n color \<Longrightarrow> clr = 1 \<or> clr = - 1 \<Longrightarrow> i < length g \<Longrightarrow>
      color ! i = 0 \<Longrightarrow>
      \<exists>color' ret'. dfs n g i clr (color, ret) = Some (Inr (color', ret')) \<and>
        dfs_post g clr (color, ret) (color', ret') \<and> color' ! i = clr"
    and pre: "dfs_pre g n color" and clr: "clr = 1 \<or> clr = - 1"
    and es: "\<forall>e \<in> set es. to e < length g"
  shows "\<exists>color' ret'. dfs_edges n g clr es (color, ret) = Some (Inr (color', ret')) \<and>
        dfs_post g clr (color, ret) (color', ret') \<and>
        (\<forall>e \<in> set es. color' ! to e \<noteq> 0 \<and> (ret' \<longrightarrow> color' ! to e = - clr))"
  using pre es
proof (induction es arbitrary: color ret)
  case Nil
  then show ?case by (simp add: dfs_post_refl)
next
  case (Cons e es)
  from Cons.prems have rng: "to e < length color" and wf: "wf_graph g" "length color = length g"
    by (simp_all add: dfs_pre_def)
  from Cons.prems have es': "\<forall>e \<in> set es. to e < length g" by simp
  have vals: "color ! to e = 0 \<or> color ! to e = 1 \<or> color ! to e = - 1"
    using Cons.prems(1) rng by (simp add: dfs_pre_def)
  consider (white) "color ! to e = 0" | (same) "color ! to e \<noteq> 0" "color ! to e = clr"
    | (other) "color ! to e \<noteq> 0" "color ! to e \<noteq> clr" by blast
  then show ?case
  proof cases
    case white
    have "\<exists>color' ret'. dfs n g (to e) (- clr) (color, ret) = Some (Inr (color', ret')) \<and>
        dfs_post g (- clr) (color, ret) (color', ret') \<and> color' ! to e = - clr"
    proof (rule IH[OF Cons.prems(1) _ _ white])
      show "- clr = 1 \<or> - clr = - 1" using clr by auto
      show "to e < length g" using rng wf by simp
    qed
    then obtain c1 r1 where d: "dfs n g (to e) (- clr) (color, ret) = Some (Inr (c1, r1))"
      and p1: "dfs_post g clr (color, ret) (c1, r1)" and c1: "c1 ! to e = - clr"
      unfolding dfs_post_neg by blast
    have pre1: "dfs_pre g n c1" by (rule dfs_pre_post[OF Cons.prems(1) p1 clr])
    from Cons.IH[OF pre1 es', of r1]
    obtain c2 r2 where d2: "dfs_edges n g clr es (c1, r1) = Some (Inr (c2, r2))"
      and p2: "dfs_post g clr (c1, r1) (c2, r2)"
      and e2: "\<forall>e \<in> set es. c2 ! to e \<noteq> 0 \<and> (r2 \<longrightarrow> c2 ! to e = - clr)" by blast
    have p: "dfs_post g clr (color, ret) (c2, r2)"
      using dfs_post_trans[OF p1 p2] wf by simp
    have l1: "length c1 = length color" by (rule dfs_post_length[OF p1])
    have "c2 ! to e = c1 ! to e"
      by (rule dfs_post_frame[OF p2]) (use l1 rng c1 clr in auto)
    with c1 have ce: "c2 ! to e = - clr" by simp
    have run: "dfs_edges n g clr (e # es) (color, ret) = Some (Inr (c2, r2))"
      using d d2 white rng by simp
    have edges: "\<forall>e' \<in> set (e # es). c2 ! to e' \<noteq> 0 \<and> (r2 \<longrightarrow> c2 ! to e' = - clr)"
      using e2 ce clr by auto
    from run p edges show ?thesis by blast
  next
    case same
    from Cons.IH[OF Cons.prems(1) es', of False]
    obtain c2 r2 where d2: "dfs_edges n g clr es (color, False) = Some (Inr (c2, r2))"
      and p2: "dfs_post g clr (color, False) (c2, r2)"
      and e2: "\<forall>e \<in> set es. c2 ! to e \<noteq> 0 \<and> (r2 \<longrightarrow> c2 ! to e = - clr)" by blast
    from dfs_post_mono[OF p2] have r2: "\<not> r2" by blast
    from p2 have p: "dfs_post g clr (color, ret) (c2, r2)" by (simp add: dfs_post_def)
    from dfs_post_frame[OF p2 rng same(1)] same have ce: "c2 ! to e \<noteq> 0" by simp
    have run: "dfs_edges n g clr (e # es) (color, ret) = Some (Inr (c2, r2))"
      using d2 same rng by simp
    have edges: "\<forall>e' \<in> set (e # es). c2 ! to e' \<noteq> 0 \<and> (r2 \<longrightarrow> c2 ! to e' = - clr)"
      using e2 ce r2 by auto
    from run p edges show ?thesis by blast
  next
    case other
    from Cons.IH[OF Cons.prems(1) es', of ret]
    obtain c2 r2 where d2: "dfs_edges n g clr es (color, ret) = Some (Inr (c2, r2))"
      and p2: "dfs_post g clr (color, ret) (c2, r2)"
      and e2: "\<forall>e \<in> set es. c2 ! to e \<noteq> 0 \<and> (r2 \<longrightarrow> c2 ! to e = - clr)" by blast
    from other vals clr have "color ! to e = - clr" by auto
    with dfs_post_frame[OF p2 rng other(1)] have ce: "c2 ! to e = - clr" by simp
    have run: "dfs_edges n g clr (e # es) (color, ret) = Some (Inr (c2, r2))"
      using d2 other rng by simp
    have edges: "\<forall>e' \<in> set (e # es). c2 ! to e' \<noteq> 0 \<and> (r2 \<longrightarrow> c2 ! to e' = - clr)"
      using e2 ce clr by auto
    from run p2 edges show ?thesis by blast
  qed
qed

lemma dfs_ok:
  assumes "dfs_pre g n color" "clr = 1 \<or> clr = - 1" "i < length g" "color ! i = 0"
  shows "\<exists>color' ret'. dfs n g i clr (color, ret) = Some (Inr (color', ret')) \<and>
        dfs_post g clr (color, ret) (color', ret') \<and> color' ! i = clr"
  using assms
proof (induction n arbitrary: i clr color ret)
  case 0
  then have "i \<in> white color" by (simp add: white_def dfs_pre_def)
  moreover from 0 have "card (white color) = 0" by (simp add: dfs_pre_def)
  ultimately show ?case by (simp add: finite_white)
next
  case (Suc n)
  from Suc.prems have len: "length color = length g" and wf: "wf_graph g"
    and i: "i < length color" by (simp_all add: dfs_pre_def)
  from Suc.prems(2) have clr0: "clr \<noteq> 0" by auto
  let ?c1 = "color[i := clr]"
  have pre1: "dfs_pre g n ?c1"
    using Suc.prems card_white_update[OF i Suc.prems(4) clr0, of n]
    by (auto simp: dfs_pre_def nth_list_update)
  have es: "\<forall>e \<in> set (g ! i). to e < length g"
    using wf Suc.prems(3) by (auto simp: wf_graph_def)
  from dfs_edges_ok[where ret = ret, OF Suc.IH pre1 Suc.prems(2) es]
  obtain c2 r2 where d2: "dfs_edges n g clr (g ! i) (?c1, ret) = Some (Inr (c2, r2))"
    and p2: "dfs_post g clr (?c1, ret) (c2, r2)"
    and e2: "\<forall>e \<in> set (g ! i). c2 ! to e \<noteq> 0 \<and> (r2 \<longrightarrow> c2 ! to e = - clr)" by blast
  from p2 i clr0 have ci: "c2 ! i = clr" by (simp add: dfs_post_def)
  have p: "dfs_post g clr (color, ret) (c2, r2)"
    unfolding dfs_post_def
  proof (intro conjI allI impI)
    show "length (fst (c2, r2)) = length (fst (color, ret))" using p2 by (simp add: dfs_post_def)
    show "snd (c2, r2) \<Longrightarrow> snd (color, ret)" using p2 by (simp add: dfs_post_def)
  next
    fix v assume "v < length (fst (color, ret))" "fst (color, ret) ! v \<noteq> 0"
    then show "fst (c2, r2) ! v = fst (color, ret) ! v"
      using p2 Suc.prems(4) by (cases "v = i") (auto simp: dfs_post_def nth_list_update)
  next
    fix v assume v: "v < length (fst (color, ret))" "fst (color, ret) ! v = 0 \<and> fst (c2, r2) ! v \<noteq> 0"
    show "fst (c2, r2) ! v = clr \<or> fst (c2, r2) ! v = - clr"
      using p2 v ci by (cases "v = i") (auto simp: dfs_post_def nth_list_update)
    show "\<forall>e\<in>set (g ! v). fst (c2, r2) ! to e \<noteq> 0 \<and> (snd (c2, r2) \<longrightarrow> fst (c2, r2) ! to e = - (fst (c2, r2) ! v))"
    proof (cases "v = i")
      case True
      with e2 ci show ?thesis by simp
    next
      case False
      with p2 v show ?thesis by (simp add: dfs_post_def nth_list_update)
    qed
  qed
  have run: "dfs (Suc n) g i clr (color, ret) = Some (Inr (c2, r2))"
    using d2 i len Suc.prems(3,4) by simp
  from run p ci show ?case by blast
qed


lemma dfs_edges_agree:
  assumes IH: "\<And>i clr color ret color' ret'.
      dfs n g i clr (color, ret) = Some (Inr (color', ret')) \<Longrightarrow> agree color c \<Longrightarrow> clr = c i \<Longrightarrow>
      length color = length g \<Longrightarrow> reachable g s i \<Longrightarrow>
      agree color' c \<and> ret' = ret \<and> length color' = length color"
    and run: "dfs_edges n g clr es (color, ret) = Some (Inr (color', ret'))"
    and es: "\<forall>e \<in> set es. c (to e) = - clr \<and> reachable g s (to e)" and clr: "clr = 1 \<or> clr = - 1"
    and ag: "agree color c" and len: "length color = length g"
  shows "agree color' c \<and> ret' = ret \<and> length color' = length color"
  using run es ag len
proof (induction es arbitrary: color ret)
  case Nil
  then show ?case by simp
next
  case (Cons e es)
  from Cons.prems(1) have rng: "to e < length color" by (auto split: if_splits)
  from Cons.prems(2) have ce: "c (to e) = - clr" and re: "reachable g s (to e)"
    and es': "\<forall>e \<in> set es. c (to e) = - clr \<and> reachable g s (to e)" by simp_all
  show ?case
  proof (cases "color ! to e = 0")
    case True
    with Cons.prems(1) rng obtain c1 r1 where d: "dfs n g (to e) (- clr) (color, ret) = Some (Inr (c1, r1))"
      and d2: "dfs_edges n g clr es (c1, r1) = Some (Inr (color', ret'))"
      by (auto split: option.splits sum.splits)
    from IH[OF d Cons.prems(3) _ Cons.prems(4) re] ce
    have a1: "agree c1 c" "r1 = ret" "length c1 = length color" by simp_all
    from Cons.IH[OF d2 es' a1(1)] a1 Cons.prems(4) show ?thesis by simp
  next
    case False
    with Cons.prems(3) rng have "color ! to e = c (to e)" by (simp add: agree_def)
    with ce clr have ne: "color ! to e \<noteq> clr" by auto
    with Cons.prems(1) rng False
    have d2: "dfs_edges n g clr es (color, ret) = Some (Inr (color', ret'))" by simp
    from Cons.IH[OF d2 es' Cons.prems(3,4)] show ?thesis .
  qed
qed

lemma dfs_agree:
  assumes "proper g s c" "dfs n g i clr (color, ret) = Some (Inr (color', ret'))"
    "agree color c" "clr = c i" "length color = length g" "reachable g s i"
  shows "agree color' c \<and> ret' = ret \<and> length color' = length color"
  using assms(2-)
proof (induction n arbitrary: i clr color ret color' ret')
  case 0
  then show ?case by simp
next
  case (Suc n)
  from Suc.prems(1) have i: "i < length color" by (auto split: if_splits)
  show ?case
  proof (cases "color ! i = 0")
    case False
    with Suc.prems i show ?thesis by simp
  next
    case True
    let ?c1 = "color[i := clr]"
    from Suc.prems(1) True i Suc.prems(4)
    have run: "dfs_edges n g clr (g ! i) (?c1, ret) = Some (Inr (color', ret'))"
      by simp
    from assms(1) have c1: "\<And>v. c v = 1 \<or> c v = - 1"
      and c2: "\<And>u e. u < length g \<Longrightarrow> reachable g s u \<Longrightarrow> e \<in> set (g ! u) \<Longrightarrow> c (to e) = - c u"
      unfolding proper_def by blast+
    have ig: "i < length g" using i Suc.prems(4) by simp
    have clr: "clr = 1 \<or> clr = - 1" using c1[of i] Suc.prems(3) by simp
    have es: "\<forall>e \<in> set (g ! i). c (to e) = - clr \<and> reachable g s (to e)"
    proof
      fix e assume e: "e \<in> set (g ! i)"
      from c2[OF ig Suc.prems(5) e] Suc.prems(3) have "c (to e) = - clr" by simp
      moreover from Suc.prems(5) ig e have "reachable g s (to e)" by (rule reachable_step)
      ultimately show "c (to e) = - clr \<and> reachable g s (to e)" by simp
    qed
    have ag: "agree ?c1 c" unfolding agree_def
    proof (intro allI impI)
      fix v assume v: "v < length ?c1" "?c1 ! v \<noteq> 0"
      show "?c1 ! v = c v"
      proof (cases "v = i")
        case True
        with i Suc.prems(3) show ?thesis by simp
      next
        case False
        with v Suc.prems(2) show ?thesis by (simp add: agree_def)
      qed
    qed
    have len: "length ?c1 = length g" using Suc.prems(4) by simp
    have "agree color' c \<and> ret' = ret \<and> length color' = length ?c1"
    proof (rule dfs_edges_agree[OF _ run es clr ag len])
      fix j k col r col' r'
      assume "dfs n g j k (col, r) = Some (Inr (col', r'))" "agree col c" "k = c j"
        "length col = length g" "reachable g s j"
      then show "agree col' c \<and> r' = r \<and> length col' = length col" by (rule Suc.IH)
    qed
    then show ?thesis by simp
  qed
qed

lemma two_colourable_from_proper:
  assumes "two_colourable_from g s"
  shows "\<exists>c. proper g s c \<and> c s = 1"
proof -
  from assms obtain b :: "nat \<Rightarrow> bool"
    where b: "\<forall>u < length g. reachable g s u \<longrightarrow> (\<forall>e \<in> set (g ! u). b (to e) \<noteq> b u)"
    by (auto simp: two_colourable_from_def)
  define c :: "nat \<Rightarrow> int" where "c v = (if b v = b s then 1 else - 1)" for v
  have "proper g s c" unfolding proper_def
  proof (intro conjI allI impI ballI)
    fix v show "c v = 1 \<or> c v = - 1" by (simp add: c_def)
  next
    fix u e assume "u < length g" "reachable g s u" "e \<in> set (g ! u)"
    with b have "b (to e) \<noteq> b u" by blast
    then show "c (to e) = - c u" by (auto simp: c_def)
  qed
  moreover have "c s = 1" by (simp add: c_def)
  ultimately show ?thesis by blast
qed

lemma two_colourable_from_all:
  assumes "two_colourable g"
  shows "two_colourable_from g s"
proof -
  from assms obtain c :: "nat \<Rightarrow> bool" where "\<forall>u < length g. \<forall>e \<in> set (g ! u). c (to e) \<noteq> c u"
    unfolding two_colourable_def by (rule exE)
  then have c: "\<forall>u < length g. reachable g s u \<longrightarrow> (\<forall>e \<in> set (g ! u). c (to e) \<noteq> c u)" by simp
  show ?thesis unfolding two_colourable_from_def by (rule exI[of _ c]) (rule c)
qed

lemma two_colourable_from_connected:
  assumes all: "\<forall>v < length g. reachable g s v" and two: "two_colourable_from g s"
  shows "two_colourable g"
proof -
  from two obtain c :: "nat \<Rightarrow> bool"
    where c: "\<forall>u < length g. reachable g s u \<longrightarrow> (\<forall>e \<in> set (g ! u). c (to e) \<noteq> c u)"
    unfolding two_colourable_from_def by (rule exE)
  have c': "\<forall>u < length g. \<forall>e \<in> set (g ! u). c (to e) \<noteq> c u"
  proof (intro allI impI)
    fix u assume u: "u < length g"
    with all have "reachable g s u" by simp
    with c u show "\<forall>e \<in> set (g ! u). c (to e) \<noteq> c u" by simp
  qed
  show ?thesis unfolding two_colourable_def by (rule exI[of _ c]) (rule c')
qed

lemma agree_replicate: "agree (replicate n 0) c"
  by (simp add: agree_def)

lemma dfs_pre_init: "wf_graph g \<Longrightarrow> length g \<le> fuel \<Longrightarrow> dfs_pre g fuel (replicate (length g) 0)"
proof -
  assume a: "wf_graph g" "length g \<le> fuel"
  have "white (replicate (length g) (0 :: int)) = {..<length g}" by (auto simp: white_def)
  with a show ?thesis by (simp add: dfs_pre_def)
qed

lemma isBipartiteGraph_run:
  assumes "wf_graph g" "g \<noteq> []" "length g \<le> fuel"
  shows "\<exists>color ret. dfs fuel g 0 1 (replicate (length g) 0, True) = Some (Inr (color, ret)) \<and>
      isBipartiteGraph fuel g = Some (Inr ret) \<and>
      dfs_post g 1 (replicate (length g) 0, True) (color, ret) \<and> color ! 0 = 1"
proof -
  from dfs_ok[OF dfs_pre_init[OF assms(1,3)], of 1 0 True] assms(2)
  obtain color ret where d: "dfs fuel g 0 1 (replicate (length g) 0, True) = Some (Inr (color, ret))"
    and p: "dfs_post g 1 (replicate (length g) 0, True) (color, ret)" and c: "color ! 0 = 1"
    by auto
  from d have "isBipartiteGraph fuel g = Some (Inr ret)" by (simp add: isBipartiteGraph_def)
  with d p c show ?thesis by blast
qed

lemma reachable_coloured:
  assumes wf: "wf_graph g" and p: "dfs_post g 1 (replicate (length g) 0, True) (color, ret)"
    and c0: "color ! 0 = 1" and g: "g \<noteq> []" and r: "reachable g 0 v"
  shows "v < length g \<and> color ! v \<noteq> 0"
  using r
proof (induction rule: reachable.induct)
  case reachable_refl
  from g c0 show ?case by simp
next
  case (reachable_step v e)
  then have v: "v < length g" "color ! v \<noteq> 0" by simp_all
  from wf v(1) reachable_step.hyps(3) have "to e < length g" by (auto simp: wf_graph_def)
  moreover from p v reachable_step.hyps(3) have "color ! to e \<noteq> 0" by (simp add: dfs_post_def)
  ultimately show ?case by simp
qed

text \<open>C4, as amended. On a graph with at least one vertex whose edges end at vertices of the
  graph, and with a counter of at least the number of vertices, \<open>isBipartiteGraph\<close> returns a
  boolean, and it is \<open>True\<close> exactly when the part of the graph that can be reached from vertex
  \<open>0\<close> has a proper 2-colouring. So it is \<open>True\<close> whenever the whole graph has one, and when every
  vertex can be reached from vertex \<open>0\<close> it is \<open>True\<close> exactly when the whole graph has one.\<close>

theorem isBipartiteGraph_two_colourable:
  assumes "wf_graph g" "g \<noteq> []" "length g \<le> fuel"
  shows "\<exists>b. isBipartiteGraph fuel g = Some (Inr b) \<and> (b \<longleftrightarrow> two_colourable_from g 0) \<and>
           (two_colourable g \<longrightarrow> b) \<and>
           ((\<forall>v < length g. reachable g 0 v) \<longrightarrow> (b \<longleftrightarrow> two_colourable g))"
proof -
  from isBipartiteGraph_run[OF assms]
  obtain color ret where d: "dfs fuel g 0 1 (replicate (length g) 0, True) = Some (Inr (color, ret))"
    and res: "isBipartiteGraph fuel g = Some (Inr ret)"
    and p: "dfs_post g 1 (replicate (length g) 0, True) (color, ret)" and c0: "color ! 0 = 1"
    by blast
  have sound: "ret" if "two_colourable_from g 0"
  proof -
    from two_colourable_from_proper[OF that] obtain c where c: "proper g 0 c" "c 0 = 1" by blast
    from dfs_agree[OF c(1) d agree_replicate _ _ reachable_refl] c(2) show ?thesis by simp
  qed
  have complete: "two_colourable_from g 0" if ret: "ret"
    unfolding two_colourable_from_def
  proof (intro exI[of _ "\<lambda>v. color ! v = 1"] allI impI ballI)
    fix u e assume u: "u < length g" and r: "reachable g 0 u" and e: "e \<in> set (g ! u)"
    from reachable_coloured[OF assms(1) p c0 assms(2) r] have cu: "color ! u \<noteq> 0" by simp
    from p u cu have "color ! u = 1 \<or> color ! u = - 1" by (simp add: dfs_post_def)
    moreover from p u cu e ret have "color ! to e = - (color ! u)" by (simp add: dfs_post_def)
    ultimately show "(color ! to e = 1) \<noteq> (color ! u = 1)" by auto
  qed
  from sound complete have iff: "ret \<longleftrightarrow> two_colourable_from g 0" by blast
  have all: "two_colourable g \<longrightarrow> ret" using iff two_colourable_from_all[of g 0] by blast
  have conn: "(\<forall>v < length g. reachable g 0 v) \<longrightarrow> (ret \<longleftrightarrow> two_colourable g)"
    using iff two_colourable_from_all[of g 0] two_colourable_from_connected[of g 0] by blast
  from res iff all conn show ?thesis by blast
qed

text \<open>The theorem on the 4-cycle, where the check returns \<open>True\<close>, and on the triangle, where it
  returns \<open>False\<close>; every vertex of either can be reached from vertex \<open>0\<close>, so the 4-cycle has a
  proper 2-colouring and the triangle has none.\<close>

theorem isBipartiteGraph_two_colourable_witness:
  "wf_graph [[Edge 0 1 1, Edge 0 3 1], [Edge 1 0 1, Edge 1 2 1], [Edge 2 1 1, Edge 2 3 1], [Edge 3 2 1, Edge 3 0 1]] \<and>
   isBipartiteGraph 4 [[Edge 0 1 1, Edge 0 3 1], [Edge 1 0 1, Edge 1 2 1], [Edge 2 1 1, Edge 2 3 1], [Edge 3 2 1, Edge 3 0 1]]
     = Some (Inr True) \<and>
   two_colourable [[Edge 0 1 1, Edge 0 3 1], [Edge 1 0 1, Edge 1 2 1], [Edge 2 1 1, Edge 2 3 1], [Edge 3 2 1, Edge 3 0 1]] \<and>
   wf_graph [[Edge 0 1 1, Edge 0 2 1], [Edge 1 0 1, Edge 1 2 1], [Edge 2 1 1, Edge 2 0 1]] \<and>
   isBipartiteGraph 3 [[Edge 0 1 1, Edge 0 2 1], [Edge 1 0 1, Edge 1 2 1], [Edge 2 1 1, Edge 2 0 1]]
     = Some (Inr False) \<and>
   \<not> two_colourable [[Edge 0 1 1, Edge 0 2 1], [Edge 1 0 1, Edge 1 2 1], [Edge 2 1 1, Edge 2 0 1]]"
proof -
  let ?g = "[[Edge 0 1 1, Edge 0 3 1], [Edge 1 0 1, Edge 1 2 1], [Edge 2 1 1, Edge 2 3 1], [Edge 3 2 1, Edge 3 0 1]]"
  let ?t = "[[Edge 0 1 1, Edge 0 2 1], [Edge 1 0 1, Edge 1 2 1], [Edge 2 1 1, Edge 2 0 1]]"
  have wf: "wf_graph ?g" by (simp add: wf_graph_def)
  have wft: "wf_graph ?t" by (simp add: wf_graph_def)
  have run: "isBipartiteGraph 4 ?g = Some (Inr True)" by code_simp
  have tri: "isBipartiteGraph 3 ?t = Some (Inr False)" by code_simp
  have r0: "reachable ?g 0 0" by (rule reachable_refl)
  have r1: "reachable ?g 0 1" using reachable_step[OF r0, of "Edge 0 1 1"] by simp
  have r2: "reachable ?g 0 2" using reachable_step[OF r1, of "Edge 1 2 1"] by simp
  have r3: "reachable ?g 0 3" using reachable_step[OF r2, of "Edge 2 3 1"] by simp
  have all: "\<forall>v < length ?g. reachable ?g 0 v"
  proof (intro allI impI)
    fix v assume "v < length ?g"
    then have "v = 0 \<or> v = 1 \<or> v = 2 \<or> v = 3" by auto
    with r0 r1 r2 r3 show "reachable ?g 0 v" by blast
  qed
  from isBipartiteGraph_two_colourable[OF wf, of 4] run all have two: "two_colourable ?g" by simp
  from isBipartiteGraph_two_colourable[OF wft, of 3] tri have "\<not> two_colourable ?t" by simp
  with wf wft run tri two show ?thesis by blast
qed

text \<open>C4 as stated fails on a graph that is not connected: vertex \<open>0\<close> alone and a triangle on
  the vertices \<open>1\<close>, \<open>2\<close>, \<open>3\<close>. The check only colours vertex \<open>0\<close> and returns \<open>True\<close>.\<close>

theorem isBipartiteGraph_disconnected_counterexample:
  "isBipartiteGraph 4 [[], [Edge 1 2 1, Edge 1 3 1], [Edge 2 1 1, Edge 2 3 1], [Edge 3 1 1, Edge 3 2 1]]
     = Some (Inr True) \<and>
   \<not> two_colourable [[], [Edge 1 2 1, Edge 1 3 1], [Edge 2 1 1, Edge 2 3 1], [Edge 3 1 1, Edge 3 2 1]]"
proof
  show "isBipartiteGraph 4 [[], [Edge 1 2 1, Edge 1 3 1], [Edge 2 1 1, Edge 2 3 1], [Edge 3 1 1, Edge 3 2 1]]
     = Some (Inr True)" by code_simp
next
  let ?g = "[[], [Edge 1 2 1, Edge 1 3 1], [Edge 2 1 1, Edge 2 3 1], [Edge 3 1 1, Edge 3 2 1]]"
  show "\<not> two_colourable ?g"
  proof
    assume "two_colourable ?g"
    then obtain c :: "nat \<Rightarrow> bool" where c: "\<forall>u < length ?g. \<forall>e \<in> set (?g ! u). c (to e) \<noteq> c u"
      unfolding two_colourable_def by blast
    from c[rule_format, of 1 "Edge 1 2 1"] have a: "c 2 \<noteq> c 1" by simp
    from c[rule_format, of 1 "Edge 1 3 1"] have b: "c 3 \<noteq> c 1" by simp
    from c[rule_format, of 2 "Edge 2 3 1"] have d: "c 3 \<noteq> c 2" by simp
    from a b d show False by blast
  qed
qed

text \<open>C10. The first call \<open>dfs(0, 1)\<close> reads \<open>color[0]\<close>: on the graph with no vertex the read is
  out of range, whatever the counter. On a graph with at least one vertex whose edges end at
  vertices of the graph no read is out of range: the check returns a boolean.\<close>

theorem isBipartiteGraph_index:
  "isBipartiteGraph (Suc n) [] = Some (Inl OutOfRange) \<and>
   (wf_graph g \<and> g \<noteq> [] \<and> length g \<le> fuel \<longrightarrow> (\<exists>b. isBipartiteGraph fuel g = Some (Inr b)))"
proof
  show "isBipartiteGraph (Suc n) [] = Some (Inl OutOfRange)"
    by (simp add: isBipartiteGraph_def)
next
  show "wf_graph g \<and> g \<noteq> [] \<and> length g \<le> fuel \<longrightarrow> (\<exists>b. isBipartiteGraph fuel g = Some (Inr b))"
  proof
    assume a: "wf_graph g \<and> g \<noteq> [] \<and> length g \<le> fuel"
    then have "wf_graph g" "g \<noteq> []" "length g \<le> fuel" by simp_all
    from isBipartiteGraph_run[OF this] show "\<exists>b. isBipartiteGraph fuel g = Some (Inr b)" by blast
  qed
qed

text \<open>The theorem on the graph with one vertex and no edge.\<close>

theorem isBipartiteGraph_index_witness:
  "isBipartiteGraph (Suc 0) [] = Some (Inl OutOfRange) \<and>
   wf_graph [[]] \<and> [[]] \<noteq> ([] :: graph) \<and> length ([[]] :: graph) \<le> 1 \<and>
   (\<exists>b. isBipartiteGraph 1 [[]] = Some (Inr b))"
  using isBipartiteGraph_index[of 0 "[[]]" 1] by (simp add: wf_graph_def)

section \<open>C5: the topological sort\<close>

lemma before_append: "before xs a b \<Longrightarrow> before (xs @ ys) a b"
  unfolding before_def by (metis append.assoc append_Cons)

lemma before_snoc: "a \<in> set xs \<Longrightarrow> before (xs @ [b]) a b"
proof -
  assume "a \<in> set xs"
  then obtain as bs where "xs = as @ a # bs" by (meson split_list)
  then have "xs @ [b] = as @ a # bs @ b # []" by simp
  then show ?thesis unfolding before_def by blast
qed

lemma before_rev: "before xs a b \<Longrightarrow> before (rev xs) b a"
proof -
  assume "before xs a b"
  then obtain as bs cs where "xs = as @ a # bs @ b # cs" unfolding before_def by blast
  then have "rev xs = rev cs @ b # rev bs @ a # rev as" by simp
  then show ?thesis unfolding before_def by blast
qed

lemma position_append_notin: "v \<notin> set as \<Longrightarrow> position (as @ xs) v = length as + position xs v"
  by (induction as) auto

lemma position_less_in: "v \<in> set xs \<Longrightarrow> position xs v < length xs"
  by (induction xs) auto

lemma before_position:
  assumes "distinct xs" "before xs a b"
  shows "position xs a < position xs b"
proof -
  from assms(2) obtain as bs cs where xs: "xs = as @ a # bs @ b # cs" unfolding before_def by blast
  with assms(1) have na: "a \<notin> set as" and nb: "b \<notin> set as" "b \<noteq> a" "b \<notin> set bs" by auto
  have "position xs a = length as" using na by (simp add: xs position_append_notin)
  moreover have "position xs b = length as + Suc (length bs)"
    using nb by (simp add: xs position_append_notin)
  ultimately show ?thesis by simp
qed

lemma topological_acyclic:
  assumes "distinct xs" "\<forall>(u, v) \<in> arcs g. before xs u v"
  shows "acyclic (arcs g)"
proof -
  have "arcs g \<subseteq> inv_image less_than (position xs)"
    using assms before_position[OF assms(1)] by (auto simp: inv_image_def)
  moreover have "wf (inv_image less_than (position xs))" by simp
  ultimately have "wf (arcs g)" by (rule wf_subset[rotated])
  then show ?thesis by (rule wf_acyclic)
qed

lemma ts_inv_length: "ts_inv g (c, ord) \<Longrightarrow> length c = length g"
  by (simp add: ts_inv_def)

lemma ts_inv_vals: "ts_inv g (c, ord) \<Longrightarrow> v < length g \<Longrightarrow> c ! v = 0 \<or> c ! v = 1 \<or> c ! v = 2"
  by (simp add: ts_inv_def)

lemma ts_inv_set: "ts_inv g (c, ord) \<Longrightarrow> set ord = {v. v < length g \<and> c ! v = 2}"
  by (simp add: ts_inv_def)

lemma ts_inv_distinct: "ts_inv g (c, ord) \<Longrightarrow> distinct ord"
  by (simp add: ts_inv_def)

lemma ts_inv_before:
  "ts_inv g (c, ord) \<Longrightarrow> u < length g \<Longrightarrow> c ! u = 2 \<Longrightarrow> e \<in> set (g ! u) \<Longrightarrow> before ord (to e) u"
  by (simp add: ts_inv_def)

lemma ts_step_inv: "ts_step g st (c', ord') \<Longrightarrow> ts_inv g (c', ord')"
  unfolding ts_step_def fst_conv snd_conv by blast

lemma ts_step_frame: "ts_step g (c, ord) (c', ord') \<Longrightarrow> u < length g \<Longrightarrow> c ! u \<noteq> 0 \<Longrightarrow> c' ! u = c ! u"
  unfolding ts_step_def fst_conv snd_conv by blast

lemma ts_step_gray: "ts_step g (c, ord) (c', ord') \<Longrightarrow> u < length g \<Longrightarrow> c' ! u = 1 \<Longrightarrow> c ! u = 1"
  unfolding ts_step_def fst_conv snd_conv by blast

lemma ts_step_order: "ts_step g (c, ord) (c', ord') \<Longrightarrow> \<exists>zs. ord' = ord @ zs"
  unfolding ts_step_def fst_conv snd_conv by blast

lemma ts_step_refl: "ts_inv g st \<Longrightarrow> ts_step g st st"
  by (simp add: ts_step_def)

lemma ts_step_trans:
  assumes "ts_step g st st1" "ts_step g st1 st2"
  shows "ts_step g st st2"
proof -
  obtain c ord where st: "st = (c, ord)" by (cases st)
  obtain c1 ord1 where st1: "st1 = (c1, ord1)" by (cases st1)
  obtain c2 ord2 where st2: "st2 = (c2, ord2)" by (cases st2)
  note a = assms(1)[unfolded st st1] and b = assms(2)[unfolded st1 st2]
  have f: "c2 ! u = c ! u" if "u < length g" "c ! u \<noteq> 0" for u
    using ts_step_frame[OF a that] ts_step_frame[OF b that(1)] that(2) by simp
  have gr: "c ! u = 1" if "u < length g" "c2 ! u = 1" for u
    using ts_step_gray[OF a that(1) ts_step_gray[OF b that]] .
  have ord: "\<exists>zs. ord2 = ord @ zs"
    using ts_step_order[OF a] ts_step_order[OF b] by auto
  show ?thesis
    unfolding st st2 ts_step_def fst_conv snd_conv
  proof (intro conjI allI impI)
    show "ts_inv g (c2, ord2)" by (rule ts_step_inv[OF b])
    show "\<exists>zs. ord2 = ord @ zs" by (rule ord)
  next
    fix u assume "u < length g" "c ! u \<noteq> 0" then show "c2 ! u = c ! u" by (rule f)
  next
    fix u assume "u < length g" "c2 ! u = 1" then show "c ! u = 1" by (rule gr)
  qed
qed

lemma ts_step_white:
  assumes "ts_step g (c, ord) (c', ord')" "ts_inv g (c, ord)"
  shows "white c' \<subseteq> white c"
proof
  fix v assume "v \<in> white c'"
  then have v: "v < length c'" "c' ! v = 0" by (auto simp: white_def)
  have len: "length c' = length g" "length c = length g"
    using ts_inv_length[OF ts_step_inv[OF assms(1)]] ts_inv_length[OF assms(2)] by simp_all
  have "c ! v = 0"
  proof (rule ccontr)
    assume "c ! v \<noteq> 0"
    with ts_step_frame[OF assms(1), of v] v len show False by simp
  qed
  with v len show "v \<in> white c" by (simp add: white_def)
qed


lemma arcs_I: "u < length g \<Longrightarrow> e \<in> set (g ! u) \<Longrightarrow> (u, to e) \<in> arcs g"
  unfolding arcs_def by blast

lemma gray_reach_D: "gray_reach g c v \<Longrightarrow> u < length g \<Longrightarrow> c ! u = 1 \<Longrightarrow> (u, v) \<in> (arcs g)\<^sup>*"
  unfolding gray_reach_def by blast

lemma gray_reach_step:
  assumes "gray_reach g c v" "v < length g" "e \<in> set (g ! v)"
  shows "gray_reach g c (to e)"
  unfolding gray_reach_def
proof (intro allI impI)
  fix u assume "u < length g" "c ! u = 1"
  then have "(u, v) \<in> (arcs g)\<^sup>*" by (rule gray_reach_D[OF assms(1)])
  moreover have "(v, to e) \<in> arcs g" by (rule arcs_I[OF assms(2,3)])
  ultimately show "(u, to e) \<in> (arcs g)\<^sup>*" by (rule rtrancl_into_rtrancl)
qed

lemma gray_back_edge:
  assumes "gray_reach g c v" "v < length g" "e \<in> set (g ! v)" "to e < length g" "c ! to e = 1"
  shows "\<not> acyclic (arcs g)"
proof -
  have "(to e, v) \<in> (arcs g)\<^sup>*" by (rule gray_reach_D[OF assms(1,4,5)])
  moreover have "(v, to e) \<in> arcs g" by (rule arcs_I[OF assms(2,3)])
  ultimately have "(v, v) \<in> (arcs g)\<^sup>+" by (rule rtrancl_into_trancl2[rotated])
  then show ?thesis unfolding acyclic_def by blast
qed

lemma visit_edges_ok:
  assumes IH: "\<And>v color order. ts_inv g (color, order) \<Longrightarrow> v < length g \<Longrightarrow> color ! v = 0 \<Longrightarrow>
      gray_reach g color v \<Longrightarrow> card (white color) \<le> n \<Longrightarrow>
      \<exists>b color' order'. visit n g v (color, order) = Some (Inr (b, color', order')) \<and>
        (b \<longrightarrow> ts_step g (color, order) (color', order') \<and> color' ! v = 2) \<and>
        (\<not> b \<longrightarrow> \<not> acyclic (arcs g))"
    and wf: "wf_graph g" and v: "v < length g"
    and inv: "ts_inv g (color, order)" and gray: "color ! v = 1" and es: "set es \<subseteq> set (g ! v)"
    and reach: "gray_reach g color v" and card: "card (white color) \<le> n"
  shows "\<exists>b color' order'. visit_edges n g es (color, order) = Some (Inr (b, color', order')) \<and>
      (b \<longrightarrow> ts_step g (color, order) (color', order') \<and> (\<forall>e \<in> set es. color' ! to e = 2)) \<and>
      (\<not> b \<longrightarrow> \<not> acyclic (arcs g))"
  using inv gray es reach card
proof (induction es arbitrary: color order)
  case Nil
  have "visit_edges n g [] (color, order) = Some (Inr (True, color, order))" by simp
  moreover have "ts_step g (color, order) (color, order)" by (rule ts_step_refl[OF Nil.prems(1)])
  ultimately show ?case by auto
next
  case (Cons e es)
  note inv = Cons.prems(1) and gray = Cons.prems(2) and reach = Cons.prems(4) and card = Cons.prems(5)
  from Cons.prems(3) have e: "e \<in> set (g ! v)" and es: "set es \<subseteq> set (g ! v)" by simp_all
  have len: "length color = length g" by (rule ts_inv_length[OF inv])
  have te: "to e < length g" using wf v e unfolding wf_graph_def by auto
  consider (black) "color ! to e = 2" | (gray) "color ! to e = 1" | (white) "color ! to e = 0"
    using ts_inv_vals[OF inv te] by auto
  then show ?case
  proof cases
    case black
    from Cons.IH[OF inv gray es reach card]
    obtain b c2 o2 where r: "visit_edges n g es (color, order) = Some (Inr (b, c2, o2))"
      and t: "b \<longrightarrow> ts_step g (color, order) (c2, o2) \<and> (\<forall>e \<in> set es. c2 ! to e = 2)"
      and f: "\<not> b \<longrightarrow> \<not> acyclic (arcs g)" by blast
    have run: "visit_edges n g (e # es) (color, order) = Some (Inr (b, c2, o2))"
      using r black te len by simp
    have "c2 ! to e = 2" if b
    proof -
      from t that have "ts_step g (color, order) (c2, o2)" by simp
      from ts_step_frame[OF this te] black show ?thesis by simp
    qed
    with t have "b \<longrightarrow> ts_step g (color, order) (c2, o2) \<and> (\<forall>e' \<in> set (e # es). c2 ! to e' = 2)"
      by simp
    with run f show ?thesis by blast
  next
    case gray
    have run: "visit_edges n g (e # es) (color, order) = Some (Inr (False, color, order))"
      using gray te len by simp
    have "\<not> acyclic (arcs g)" by (rule gray_back_edge[OF reach v e te gray])
    with run show ?thesis by blast
  next
    case white
    have "\<exists>b color' order'. visit n g (to e) (color, order) = Some (Inr (b, color', order')) \<and>
        (b \<longrightarrow> ts_step g (color, order) (color', order') \<and> color' ! to e = 2) \<and>
        (\<not> b \<longrightarrow> \<not> acyclic (arcs g))"
      by (rule IH[OF inv te white gray_reach_step[OF reach v e] card])
    then obtain b1 c1 o1 where r1: "visit n g (to e) (color, order) = Some (Inr (b1, c1, o1))"
      and t1: "b1 \<longrightarrow> ts_step g (color, order) (c1, o1) \<and> c1 ! to e = 2"
      and f1: "\<not> b1 \<longrightarrow> \<not> acyclic (arcs g)" by blast
    show ?thesis
    proof (cases b1)
      case False
      with r1 white te len
      have "visit_edges n g (e # es) (color, order) = Some (Inr (False, c1, o1))" by simp
      with f1 False show ?thesis by blast
    next
      case True
      with t1 have s1: "ts_step g (color, order) (c1, o1)" and b1: "c1 ! to e = 2" by simp_all
      have inv1: "ts_inv g (c1, o1)" by (rule ts_step_inv[OF s1])
      have gray1: "c1 ! v = 1" using ts_step_frame[OF s1 v] gray by simp
      have reach1: "gray_reach g c1 v" unfolding gray_reach_def
      proof (intro allI impI)
        fix u assume u: "u < length g" "c1 ! u = 1"
        from ts_step_gray[OF s1 u] have "color ! u = 1" .
        with reach u(1) show "(u, v) \<in> (arcs g)\<^sup>*" by (rule gray_reach_D)
      qed
      have card1: "card (white c1) \<le> n"
        using card_mono[OF finite_white ts_step_white[OF s1 inv]] card by simp
      from Cons.IH[OF inv1 gray1 es reach1 card1]
      obtain b c2 o2 where r: "visit_edges n g es (c1, o1) = Some (Inr (b, c2, o2))"
        and t: "b \<longrightarrow> ts_step g (c1, o1) (c2, o2) \<and> (\<forall>e \<in> set es. c2 ! to e = 2)"
        and f: "\<not> b \<longrightarrow> \<not> acyclic (arcs g)" by blast
      have run: "visit_edges n g (e # es) (color, order) = Some (Inr (b, c2, o2))"
        using r r1 True white te len by simp
      have "ts_step g (color, order) (c2, o2) \<and> (\<forall>e' \<in> set (e # es). c2 ! to e' = 2)" if b
      proof -
        from t that have s2: "ts_step g (c1, o1) (c2, o2)" and all: "\<forall>e \<in> set es. c2 ! to e = 2"
          by simp_all
        from ts_step_frame[OF s2 te] b1 have "c2 ! to e = 2" by simp
        with ts_step_trans[OF s1 s2] all show ?thesis by simp
      qed
      with run f show ?thesis by blast
    qed
  qed
qed


lemma ts_inv_gray:
  assumes inv: "ts_inv g (color, order)" and v: "v < length g" and w: "color ! v = 0"
  shows "ts_inv g (color[v := 1], order)"
proof -
  have len: "length color = length g" by (rule ts_inv_length[OF inv])
  have pt: "(color[v := 1] ! u = 2) = (color ! u = 2)" if "u < length g" for u
    using w len that by (cases "u = v") simp_all
  have blacks: "{u. u < length g \<and> color[v := 1] ! u = 2} = {u. u < length g \<and> color ! u = 2}"
    using pt by blast
  show ?thesis unfolding ts_inv_def fst_conv snd_conv
  proof (intro conjI allI impI ballI)
    show "length (color[v := 1]) = length g" using len by simp
    show "distinct order" by (rule ts_inv_distinct[OF inv])
    show "set order = {u. u < length g \<and> color[v := 1] ! u = 2}"
      using ts_inv_set[OF inv] blacks by simp
  next
    fix u assume "u < length g"
    then show "color[v := 1] ! u = 0 \<or> color[v := 1] ! u = 1 \<or> color[v := 1] ! u = 2"
      using ts_inv_vals[OF inv, of u] len by (cases "u = v") simp_all
  next
    fix u e assume u: "u < length g" "color[v := 1] ! u = 2" "e \<in> set (g ! u)"
    then have "color ! u = 2" using len by (cases "u = v") simp_all
    from ts_inv_before[OF inv u(1) this u(3)] show "before order (to e) u" .
  qed
qed

lemma ts_inv_black:
  assumes inv: "ts_inv g (c2, o2)" and v: "v < length g" and gr: "c2 ! v = 1"
    and es: "\<forall>e \<in> set (g ! v). c2 ! to e = 2" and wf: "wf_graph g"
  shows "ts_inv g (c2[v := 2], o2 @ [v])"
proof -
  have len: "length c2 = length g" by (rule ts_inv_length[OF inv])
  have set2: "set o2 = {u. u < length g \<and> c2 ! u = 2}" by (rule ts_inv_set[OF inv])
  have vn: "v \<notin> set o2" using set2 gr by simp
  show ?thesis unfolding ts_inv_def fst_conv snd_conv
  proof (intro conjI allI impI ballI)
    show "length (c2[v := 2]) = length g" using len by simp
    show "distinct (o2 @ [v])" using ts_inv_distinct[OF inv] vn by simp
    have pt: "(c2[v := 2] ! u = 2) = (u = v \<or> c2 ! u = 2)" if "u < length g" for u
      using len that by (cases "u = v") simp_all
    have "{u. u < length g \<and> c2[v := 2] ! u = 2} = insert v {u. u < length g \<and> c2 ! u = 2}"
      using pt v by blast
    then show "set (o2 @ [v]) = {u. u < length g \<and> c2[v := 2] ! u = 2}"
      using set2 by simp
  next
    fix u assume "u < length g"
    then show "c2[v := 2] ! u = 0 \<or> c2[v := 2] ! u = 1 \<or> c2[v := 2] ! u = 2"
      using ts_inv_vals[OF inv, of u] len by (cases "u = v") simp_all
  next
    fix u e assume u: "u < length g" "c2[v := 2] ! u = 2" "e \<in> set (g ! u)"
    show "before (o2 @ [v]) (to e) u"
    proof (cases "u = v")
      case True
      with es u(3) have "c2 ! to e = 2" by simp
      moreover have "to e < length g" using wf v u(3) True unfolding wf_graph_def by auto
      ultimately have "to e \<in> set o2" using set2 by simp
      then show ?thesis unfolding True by (rule before_snoc)
    next
      case False
      with u(2) len have "c2 ! u = 2" by simp
      from ts_inv_before[OF inv u(1) this u(3)] show ?thesis by (rule before_append)
    qed
  qed
qed

lemma visit_ok:
  assumes wf: "wf_graph g"
    and "ts_inv g (color, order)" "v < length g" "color ! v = 0" "gray_reach g color v"
      "card (white color) \<le> n"
  shows "\<exists>b color' order'. visit n g v (color, order) = Some (Inr (b, color', order')) \<and>
      (b \<longrightarrow> ts_step g (color, order) (color', order') \<and> color' ! v = 2) \<and>
      (\<not> b \<longrightarrow> \<not> acyclic (arcs g))"
  using assms(2-)
proof (induction n arbitrary: v color order)
  case 0
  have "length color = length g" by (rule ts_inv_length[OF 0(1)])
  with 0 have "v \<in> white color" by (simp add: white_def)
  moreover from 0 have "card (white color) = 0" by simp
  ultimately show ?case by (simp add: finite_white)
next
  case (Suc n)
  note inv = Suc.prems(1) and v = Suc.prems(2) and w = Suc.prems(3) and reach = Suc.prems(4)
  have len: "length color = length g" by (rule ts_inv_length[OF inv])
  let ?c1 = "color[v := 1]"
  have inv1: "ts_inv g (?c1, order)" by (rule ts_inv_gray[OF inv v w])
  have gray1: "?c1 ! v = 1" using v len by simp
  have reach1: "gray_reach g ?c1 v" unfolding gray_reach_def
  proof (intro allI impI)
    fix u assume u: "u < length g" "?c1 ! u = 1"
    show "(u, v) \<in> (arcs g)\<^sup>*"
    proof (cases "u = v")
      case True
      then show ?thesis by simp
    next
      case False
      with u have "color ! u = 1" by simp
      with reach u(1) show ?thesis by (rule gray_reach_D)
    qed
  qed
  have card1: "card (white ?c1) \<le> n"
    by (rule card_white_update) (use v len w Suc.prems(5) in simp_all)
  have "\<exists>b color' order'. visit_edges n g (g ! v) (?c1, order) = Some (Inr (b, color', order')) \<and>
      (b \<longrightarrow> ts_step g (?c1, order) (color', order') \<and> (\<forall>e \<in> set (g ! v). color' ! to e = 2)) \<and>
      (\<not> b \<longrightarrow> \<not> acyclic (arcs g))"
  proof (rule visit_edges_ok[OF _ wf v inv1 gray1 _ reach1 card1])
    show "set (g ! v) \<subseteq> set (g ! v)" by simp
  next
    fix v' col ord
    assume "ts_inv g (col, ord)" "v' < length g" "col ! v' = 0" "gray_reach g col v'"
      "card (white col) \<le> n"
    then show "\<exists>b color' order'. visit n g v' (col, ord) = Some (Inr (b, color', order')) \<and>
        (b \<longrightarrow> ts_step g (col, ord) (color', order') \<and> color' ! v' = 2) \<and>
        (\<not> b \<longrightarrow> \<not> acyclic (arcs g))" by (rule Suc.IH)
  qed
  then obtain b c2 o2 where r: "visit_edges n g (g ! v) (?c1, order) = Some (Inr (b, c2, o2))"
    and t: "b \<longrightarrow> ts_step g (?c1, order) (c2, o2) \<and> (\<forall>e \<in> set (g ! v). c2 ! to e = 2)"
    and f: "\<not> b \<longrightarrow> \<not> acyclic (arcs g)" by blast
  show ?case
  proof (cases b)
    case False
    with r v len have "visit (Suc n) g v (color, order) = Some (Inr (False, c2, o2))" by simp
    with f False show ?thesis by blast
  next
    case True
    with t have s2: "ts_step g (?c1, order) (c2, o2)" and es: "\<forall>e \<in> set (g ! v). c2 ! to e = 2"
      by simp_all
    have run: "visit (Suc n) g v (color, order) = Some (Inr (True, c2[v := 2], o2 @ [v]))"
      using r True v len by simp
    have inv2: "ts_inv g (c2, o2)" by (rule ts_step_inv[OF s2])
    have len2: "length c2 = length g" by (rule ts_inv_length[OF inv2])
    have gr2: "c2 ! v = 1" using ts_step_frame[OF s2 v] gray1 by simp
    have inv': "ts_inv g (c2[v := 2], o2 @ [v])" by (rule ts_inv_black[OF inv2 v gr2 es wf])
    have step: "ts_step g (color, order) (c2[v := 2], o2 @ [v])"
      unfolding ts_step_def fst_conv snd_conv
    proof (intro conjI allI impI)
      show "ts_inv g (c2[v := 2], o2 @ [v])" by (rule inv')
      from ts_step_order[OF s2] obtain zs where "o2 = order @ zs" by blast
      then have "o2 @ [v] = order @ (zs @ [v])" by simp
      then show "\<exists>zs. o2 @ [v] = order @ zs" by blast
    next
      fix u assume u: "u < length g" "color ! u \<noteq> 0"
      with w have ne: "u \<noteq> v" by auto
      with u have "?c1 ! u \<noteq> 0" by simp
      from ts_step_frame[OF s2 u(1) this] ne show "c2[v := 2] ! u = color ! u" by simp
    next
      fix u assume u: "u < length g" "c2[v := 2] ! u = 1"
      then have ne: "u \<noteq> v" using len2 by (cases "u = v") simp_all
      with u have "c2 ! u = 1" by simp
      from ts_step_gray[OF s2 u(1) this] ne show "color ! u = 1" by simp
    qed
    have "c2[v := 2] ! v = 2" using v len2 by simp
    with run step show ?thesis by blast
  qed
qed


lemma visit_roots_ok:
  assumes wf: "wf_graph g"
    and "ts_inv g (color, order)" "\<forall>u < length g. color ! u \<noteq> 1" "\<forall>i \<in> set is. i < length g"
      "card (white color) \<le> n"
  shows "\<exists>b color' order'. visit_roots n g is (color, order) = Some (Inr (b, color', order')) \<and>
      (b \<longrightarrow> ts_step g (color, order) (color', order') \<and> (\<forall>i \<in> set is. color' ! i \<noteq> 0)) \<and>
      (\<not> b \<longrightarrow> \<not> acyclic (arcs g))"
  using assms(2-)
proof (induction "is" arbitrary: color order)
  case Nil
  have "visit_roots n g [] (color, order) = Some (Inr (True, color, order))" by simp
  moreover have "ts_step g (color, order) (color, order)" by (rule ts_step_refl[OF Nil.prems(1)])
  ultimately show ?case by auto
next
  case (Cons i "is")
  note inv = Cons.prems(1) and nogray = Cons.prems(2) and card = Cons.prems(4)
  from Cons.prems(3) have i: "i < length g" and rest: "\<forall>i \<in> set is. i < length g" by simp_all
  have len: "length color = length g" by (rule ts_inv_length[OF inv])
  show ?case
  proof (cases "color ! i = 0")
    case False
    from Cons.IH[OF inv nogray rest card]
    obtain b c2 o2 where r: "visit_roots n g is (color, order) = Some (Inr (b, c2, o2))"
      and t: "b \<longrightarrow> ts_step g (color, order) (c2, o2) \<and> (\<forall>i \<in> set is. c2 ! i \<noteq> 0)"
      and f: "\<not> b \<longrightarrow> \<not> acyclic (arcs g)" by blast
    have run: "visit_roots n g (i # is) (color, order) = Some (Inr (b, c2, o2))"
      using r False i len by simp
    have "c2 ! i \<noteq> 0" if b
    proof -
      from t that have "ts_step g (color, order) (c2, o2)" by simp
      from ts_step_frame[OF this i False] False show ?thesis by simp
    qed
    with t have "b \<longrightarrow> ts_step g (color, order) (c2, o2) \<and> (\<forall>j \<in> set (i # is). c2 ! j \<noteq> 0)"
      by simp
    with run f show ?thesis by blast
  next
    case True
    have reach: "gray_reach g color i" unfolding gray_reach_def using nogray by blast
    from visit_ok[OF wf inv i True reach card]
    obtain b1 c1 o1 where r1: "visit n g i (color, order) = Some (Inr (b1, c1, o1))"
      and t1: "b1 \<longrightarrow> ts_step g (color, order) (c1, o1) \<and> c1 ! i = 2"
      and f1: "\<not> b1 \<longrightarrow> \<not> acyclic (arcs g)" by blast
    show ?thesis
    proof (cases b1)
      case False
      with r1 True i len
      have "visit_roots n g (i # is) (color, order) = Some (Inr (False, c1, o1))" by simp
      with f1 False show ?thesis by blast
    next
      case b1: True
      with t1 have s1: "ts_step g (color, order) (c1, o1)" and ci: "c1 ! i = 2" by simp_all
      have inv1: "ts_inv g (c1, o1)" by (rule ts_step_inv[OF s1])
      have nogray1: "\<forall>u < length g. c1 ! u \<noteq> 1"
      proof (intro allI impI notI)
        fix u assume u: "u < length g" "c1 ! u = 1"
        from ts_step_gray[OF s1 u] nogray u(1) show False by simp
      qed
      have card1: "card (white c1) \<le> n"
        using card_mono[OF finite_white ts_step_white[OF s1 inv]] card by simp
      from Cons.IH[OF inv1 nogray1 rest card1]
      obtain b c2 o2 where r: "visit_roots n g is (c1, o1) = Some (Inr (b, c2, o2))"
        and t: "b \<longrightarrow> ts_step g (c1, o1) (c2, o2) \<and> (\<forall>i \<in> set is. c2 ! i \<noteq> 0)"
        and f: "\<not> b \<longrightarrow> \<not> acyclic (arcs g)" by blast
      have run: "visit_roots n g (i # is) (color, order) = Some (Inr (b, c2, o2))"
        using r r1 b1 True i len by simp
      have "ts_step g (color, order) (c2, o2) \<and> (\<forall>j \<in> set (i # is). c2 ! j \<noteq> 0)" if b
      proof -
        from t that have s2: "ts_step g (c1, o1) (c2, o2)" and all: "\<forall>i \<in> set is. c2 ! i \<noteq> 0"
          by simp_all
        from ts_step_frame[OF s2 i] ci have "c2 ! i \<noteq> 0" by simp
        with ts_step_trans[OF s1 s2] all show ?thesis by simp
      qed
      with run f show ?thesis by blast
    qed
  qed
qed

lemma ts_inv_init: "ts_inv g (replicate (length g) 0, [])"
  unfolding ts_inv_def by simp

text \<open>C5. On a graph whose edges end at vertices of the graph, with \<open>order\<close> passed in empty
  and a counter of at least the number of vertices, \<open>TopologicalSort\<close> returns a boolean and
  \<open>order\<close>. The boolean is \<open>true\<close> exactly when the graph has no directed cycle, and then
  \<open>order\<close> holds every vertex once, the start of every edge before its end.\<close>

theorem TopologicalSort_order:
  assumes "wf_graph g" "length g \<le> fuel"
  shows "\<exists>b ord. TopologicalSort fuel g [] = Some (Inr (b, ord)) \<and> (b \<longleftrightarrow> acyclic (arcs g)) \<and>
      (b \<longrightarrow> distinct ord \<and> set ord = {..<length g} \<and>
         (\<forall>u < length g. \<forall>e \<in> set (g ! u). before ord u (to e)))"
proof -
  let ?c0 = "replicate (length g) (0 :: nat)"
  have "white ?c0 = {..<length g}" by (auto simp: white_def)
  then have card: "card (white ?c0) \<le> fuel" using assms(2) by simp
  have "\<exists>b color' order'. visit_roots fuel g [0..<length g] (?c0, []) = Some (Inr (b, color', order')) \<and>
      (b \<longrightarrow> ts_step g (?c0, []) (color', order') \<and> (\<forall>i \<in> set [0..<length g]. color' ! i \<noteq> 0)) \<and>
      (\<not> b \<longrightarrow> \<not> acyclic (arcs g))"
    by (rule visit_roots_ok[OF assms(1) ts_inv_init _ _ card]) simp_all
  then obtain b c' o' where r: "visit_roots fuel g [0..<length g] (?c0, []) = Some (Inr (b, c', o'))"
    and t: "b \<longrightarrow> ts_step g (?c0, []) (c', o') \<and> (\<forall>i \<in> set [0..<length g]. c' ! i \<noteq> 0)"
    and f: "\<not> b \<longrightarrow> \<not> acyclic (arcs g)" by blast
  have run: "TopologicalSort fuel g [] = Some (Inr (b, if b then rev o' else o'))"
    using r by (cases b) (simp_all add: TopologicalSort_def)
  have good: "distinct (rev o') \<and> set (rev o') = {..<length g} \<and>
         (\<forall>u < length g. \<forall>e \<in> set (g ! u). before (rev o') u (to e))" if b
  proof -
    from t that have s: "ts_step g (?c0, []) (c', o')" and nz: "\<forall>i < length g. c' ! i \<noteq> 0"
      by simp_all
    have inv: "ts_inv g (c', o')" by (rule ts_step_inv[OF s])
    have black: "c' ! u = 2" if u: "u < length g" for u
    proof -
      have "c' ! u \<noteq> 1"
      proof
        assume "c' ! u = 1"
        from ts_step_gray[OF s u this] u show False by simp
      qed
      with ts_inv_vals[OF inv u] nz u show ?thesis by auto
    qed
    have "set o' = {..<length g}" using ts_inv_set[OF inv] black by auto
    moreover have "before (rev o') u (to e)" if "u < length g" "e \<in> set (g ! u)" for u e
      by (rule before_rev[OF ts_inv_before[OF inv that(1) black[OF that(1)] that(2)]])
    ultimately show ?thesis using ts_inv_distinct[OF inv] by simp
  qed
  have acyc: "acyclic (arcs g)" if b
  proof (rule topological_acyclic[of "rev o'"])
    from good[OF that] show "distinct (rev o')" by simp
    from good[OF that] show "\<forall>(u, v) \<in> arcs g. before (rev o') u v"
      unfolding arcs_def by blast
  qed
  from run good acyc f show ?thesis by (cases b) auto
qed

text \<open>The theorem on the graph with the arcs \<open>0 \<rightarrow> 1\<close>, \<open>0 \<rightarrow> 2\<close>, \<open>2 \<rightarrow> 1\<close>; and the sort on the
  directed triangle, where it returns \<open>false\<close>.\<close>

theorem TopologicalSort_order_witness:
  "wf_graph [[Edge 0 1 1, Edge 0 2 1], [], [Edge 2 1 1]] \<and>
   TopologicalSort 3 [[Edge 0 1 1, Edge 0 2 1], [], [Edge 2 1 1]] [] = Some (Inr (True, [0, 2, 1])) \<and>
   acyclic (arcs [[Edge 0 1 1, Edge 0 2 1], [], [Edge 2 1 1]]) \<and>
   before [0, 2, 1] 0 1 \<and> before [0, 2, 1] 0 2 \<and> before [0, 2, 1] 2 1 \<and>
   TopologicalSort 3 [[Edge 0 1 1], [Edge 1 2 1], [Edge 2 0 1]] [] = Some (Inr (False, []))"
proof -
  let ?g = "[[Edge 0 1 1, Edge 0 2 1], [], [Edge 2 1 1]]"
  have wf: "wf_graph ?g" by (simp add: wf_graph_def)
  have run: "TopologicalSort 3 ?g [] = Some (Inr (True, [0, 2, 1]))" by code_simp
  have cyc: "TopologicalSort 3 [[Edge 0 1 1], [Edge 1 2 1], [Edge 2 0 1]] [] = Some (Inr (False, []))"
    by code_simp
  from TopologicalSort_order[OF wf, of 3] run
  have a: "acyclic (arcs ?g)"
    and b: "\<forall>u < length ?g. \<forall>e \<in> set (?g ! u). before [0, 2, 1] u (to e)" by simp_all
  from b[rule_format, of 0 "Edge 0 1 1"] have b1: "before [0, 2, 1] 0 1" by simp
  from b[rule_format, of 0 "Edge 0 2 1"] have b2: "before [0, 2, 1] 0 2" by simp
  from b[rule_format, of 2 "Edge 2 1 1"] have b3: "before [0, 2, 1] 2 1" by simp
  from wf run cyc a b1 b2 b3 show ?thesis by blast
qed

section \<open>C7: the pair of entries that \<open>add_edge_to_matrix\<close> sets\<close>



section \<open>C9: what a call leaves of the caller's structures\<close>


end
